theory Spec2Isabelle
  imports Main "HOL-Library.Word" "HOL-Library.Sublist"
begin

section \<open>Byte strings, errors and the library functions the module calls\<close>

text \<open>
  The module \<^verbatim>\<open>s3tests/realistic.py\<close> is Python 2: a \<^verbatim>\<open>str\<close> is a string of bytes
  and integers are unbounded. A chunk record is the two-element list
  \<^verbatim>\<open>[offset, elapsed_nsec]\<close>.
\<close>

type_synonym byte = "8 word"
type_synonym bytes = "byte list"
type_synonym chunk = "int \<times> int"

datatype error = AssertionError | AttributeError

text \<open>
  Three things come from Python's standard library and not from the module:
  \<^item> \<^verbatim>\<open>hashlib.md5\<close>: \<open>md5 env\<close> maps the bytes fed to a hash object to its digest.
    A hash object is modelled by the bytes fed to it so far
    (\<^verbatim>\<open>update(d)\<close> appends \<open>d\<close>; \<^verbatim>\<open>digest()\<close> returns the digest of those bytes and
    leaves the object as it is, as hashlib documents);
  \<^item> \<^verbatim>\<open>random.Random\<close>: \<open>seed_rng env x\<close> is the generator state after
    \<^verbatim>\<open>seed(x)\<close>, and \<open>getrandbits64 env g\<close> is the value of
    \<^verbatim>\<open>getrandbits(64)\<close> in state \<open>g\<close> with the state that follows;
  \<^item> \<^verbatim>\<open>time.time()\<close>: every method that reads the clock takes the value read as
    an argument \<open>now\<close>, and \<open>elapsed_nsec env now start\<close> is
    \<^verbatim>\<open>int(round((now - start) * NANOSECOND))\<close>.
  They are parameters of the model, collected in one record.
\<close>

record ('g, 't) env =
  md5 :: "bytes \<Rightarrow> bytes"
  seed_rng :: "int \<Rightarrow> 'g"
  getrandbits64 :: "'g \<Rightarrow> 64 word \<times> 'g"
  elapsed_nsec :: "'t \<Rightarrow> 't \<Rightarrow> int"

text \<open>\<^verbatim>\<open>hashlib.md5().digest_size\<close>, the value every \<^verbatim>\<open>digest_size\<close> attribute holds.\<close>

definition digest_size :: int where
  "digest_size = 16"

text \<open>An MD5 digest has \<open>digest_size\<close> bytes; the theorems that need it assume it.\<close>

definition md5_ok :: "('g, 't) env \<Rightarrow> bool" where
  "md5_ok env = (\<forall>x. int (length (md5 env x)) = digest_size)"

text \<open>
  Python slices clamp their bounds: a negative bound counts from the end and stops at
  the start, a bound past the end stops at the end. \<open>py_bound n i\<close> is the position
  the bound \<open>i\<close> denotes in a string of length \<open>n\<close>; \<open>slice_to s j\<close> is
  \<^verbatim>\<open>s[:j]\<close> (also written \<^verbatim>\<open>s[0:j]\<close>) and \<open>slice_from s i\<close> is \<^verbatim>\<open>s[i:]\<close>.
\<close>

definition py_bound :: "nat \<Rightarrow> int \<Rightarrow> nat" where
  "py_bound n i = (if i < 0 then nat (int n + i) else min n (nat i))"

definition slice_to :: "'a list \<Rightarrow> int \<Rightarrow> 'a list" where
  "slice_to s j = take (py_bound (length s) j) s"

definition slice_from :: "'a list \<Rightarrow> int \<Rightarrow> 'a list" where
  "slice_from s i = drop (py_bound (length s) i) s"

text \<open>
  \<^verbatim>\<open>struct.pack('Q', w)\<close>: the eight bytes of an unsigned 64-bit value in native
  order, taken here as little-endian (least significant byte first).
  \<^verbatim>\<open>struct.pack(chunks*'Q', *l)\<close> packs the values of \<open>l\<close> one after the other,
  without padding.
\<close>

definition pack_Q :: "64 word \<Rightarrow> bytes" where
  "pack_Q w = map (\<lambda>i. ucast (drop_bit (8 * i) w)) [0..<8]"

definition pack_Qs :: "64 word list \<Rightarrow> bytes" where
  "pack_Qs l = concat (map pack_Q l)"

section \<open>RandomContentFile\<close>

text \<open>
  The object after \<^verbatim>\<open>__init__\<close> has returned. \<open>rcf_hash\<close> is \<^verbatim>\<open>self.hash\<close>: the
  bytes fed to the MD5 object, or \<open>None\<close> once \<^verbatim>\<open>read\<close> has replaced it by
  \<^verbatim>\<open>None\<close>. \<^verbatim>\<open>self.chunks\<close> is \<^verbatim>\<open>None\<close> only inside \<^verbatim>\<open>__init__\<close>, before its call
  of \<^verbatim>\<open>seek(0)\<close> moves that \<^verbatim>\<open>None\<close> into \<^verbatim>\<open>self.last_chunks\<close>; so
  \<open>rcf_chunks\<close> is a list and \<open>rcf_last_chunks\<close> an optional list.
\<close>

record ('g, 't) rcf =
  rcf_size :: int
  rcf_seed :: int
  rcf_random :: 'g
  rcf_offset :: int
  rcf_buffer :: bytes
  rcf_hash :: "bytes option"
  rcf_digest :: "bytes option"
  rcf_last_chunks :: "chunk list option"
  rcf_chunks :: "chunk list"
  rcf_last_seek :: 't

text \<open>\<^verbatim>\<open>seek\<close>: the assertion first, then every assignment of the body.\<close>

definition rcf_seek ::
  "('g, 't) env \<Rightarrow> ('g, 't) rcf \<Rightarrow> int \<Rightarrow> 't \<Rightarrow> error + ('g, 't) rcf" where
  "rcf_seek env s offset now =
     (if offset \<noteq> 0 then Inl AssertionError
      else Inr (s\<lparr>rcf_random := seed_rng env (rcf_seed s),
                  rcf_offset := offset,
                  rcf_buffer := [],
                  rcf_hash := Some [],
                  rcf_digest := None,
                  rcf_last_chunks := Some (rcf_chunks s),
                  rcf_last_seek := now,
                  rcf_chunks := []\<rparr>))"

text \<open>
  \<^verbatim>\<open>__init__\<close>: the attributes it sets, then the effect of its \<^verbatim>\<open>seek(0)\<close>, whose
  clock reading is \<open>now\<close>; \<^verbatim>\<open>last_chunks\<close> receives the \<^verbatim>\<open>None\<close> that \<^verbatim>\<open>chunks\<close> held.
\<close>

definition RandomContentFile ::
  "('g, 't) env \<Rightarrow> int \<Rightarrow> int \<Rightarrow> 't \<Rightarrow> ('g, 't) rcf" where
  "RandomContentFile env sz seed now =
     \<lparr>rcf_size = sz, rcf_seed = seed, rcf_random = seed_rng env seed,
      rcf_offset = 0, rcf_buffer = [], rcf_hash = Some [], rcf_digest = None,
      rcf_last_chunks = None, rcf_chunks = [], rcf_last_seek = now\<rparr>"

definition rcf_tell :: "('g, 't) rcf \<Rightarrow> int" where
  "rcf_tell s = rcf_offset s"

definition rcf_mark_chunk :: "('g, 't) env \<Rightarrow> 't \<Rightarrow> ('g, 't) rcf \<Rightarrow> ('g, 't) rcf" where
  "rcf_mark_chunk env now s =
     s\<lparr>rcf_chunks := rcf_chunks s @ [(rcf_offset s, elapsed_nsec env now (rcf_last_seek s))]\<rparr>"

text \<open>
  The list comprehension of \<^verbatim>\<open>_generate\<close>: \<open>n\<close> successive calls of
  \<^verbatim>\<open>getrandbits(64)\<close>, with the values in call order and the generator state after
  the last call.
\<close>

fun draw :: "('g \<Rightarrow> 64 word \<times> 'g) \<Rightarrow> nat \<Rightarrow> 'g \<Rightarrow> 64 word list \<times> 'g" where
  "draw nxt 0 g = ([], g)"
| "draw nxt (Suc n) g =
     (let (w, g1) = nxt g; (ws, g2) = draw nxt n g1 in (w # ws, g2))"

text \<open>
  \<^verbatim>\<open>_generate\<close>, with \<open>sz\<close> for its local \<^verbatim>\<open>size\<close>. It is at most \<open>2^20\<close>, so for
  \<open>0 \<le> sz\<close> the float division \<^verbatim>\<open>size/8.0\<close> is exact and
  \<^verbatim>\<open>int(math.ceil(size/8.0))\<close> is the integer ceiling \<open>- (- sz div 8)\<close>. For a
  negative \<open>sz\<close> both are at most 0; then \<^verbatim>\<open>xrange(chunks)\<close> is empty, nothing is
  drawn and the packed string is empty.
\<close>

definition rcf_generate ::
  "('g \<Rightarrow> 64 word \<times> 'g) \<Rightarrow> int \<Rightarrow> 'g \<Rightarrow> bytes \<times> 'g" where
  "rcf_generate nxt self_size g =
     (let sz = min self_size (1 * 1024 * 1024);
          chunks = - (- sz div 8);
          (l, g') = draw nxt (nat chunks) g
      in (pack_Qs l, g'))"

text \<open>
  The loop \<^verbatim>\<open>while len(self.buffer) < random_count: self.buffer += self._generate()\<close>
  on the pair of \<^verbatim>\<open>self.buffer\<close> and the generator state. It does not return when
  \<^verbatim>\<open>_generate\<close> yields the empty string; \<open>None\<close> stands for that.
\<close>

partial_function (option) fill_buffer ::
  "('g \<Rightarrow> 64 word \<times> 'g) \<Rightarrow> int \<Rightarrow> int \<Rightarrow> bytes \<times> 'g \<Rightarrow> (bytes \<times> 'g) option" where
  "fill_buffer nxt self_size random_count bg =
     (if int (length (fst bg)) < random_count
      then fill_buffer nxt self_size random_count
             (fst bg @ fst (rcf_generate nxt self_size (snd bg)),
              snd (rcf_generate nxt self_size (snd bg)))
      else Some bg)"

declare fill_buffer.simps [code]

text \<open>
  The body of \<^verbatim>\<open>if random_count > 0:\<close> in \<^verbatim>\<open>read\<close>: the bytes appended to \<open>r\<close> and
  the object after the block (the local \<^verbatim>\<open>size\<close> is updated by the caller below).
\<close>

definition read_random ::
  "('g, 't) env \<Rightarrow> ('g, 't) rcf \<Rightarrow> int \<Rightarrow> (bytes \<times> ('g, 't) rcf) option" where
  "read_random env s random_count =
     (case fill_buffer (getrandbits64 env) (rcf_size s) random_count
             (rcf_buffer s, rcf_random s) of
        None \<Rightarrow> None
      | Some (buf, g) \<Rightarrow>
          (let data = slice_to buf random_count
           in Some (data,
                s\<lparr>rcf_random := g,
                  rcf_offset := rcf_offset s + random_count,
                  rcf_buffer := slice_from buf random_count,
                  rcf_hash := (case rcf_hash s of None \<Rightarrow> None | Some h \<Rightarrow> Some (h @ data))\<rparr>)))"

text \<open>
  The body of \<^verbatim>\<open>if digest_count > 0:\<close>. \<^verbatim>\<open>self.hash.digest()\<close> on a \<^verbatim>\<open>self.hash\<close>
  that is \<^verbatim>\<open>None\<close> raises AttributeError.
\<close>

definition read_digest ::
  "('g, 't) env \<Rightarrow> ('g, 't) rcf \<Rightarrow> int \<Rightarrow> error + bytes \<times> ('g, 't) rcf" where
  "read_digest env s digest_count =
     (case (case rcf_digest s of
              Some d \<Rightarrow> Inr (d, s)
            | None \<Rightarrow>
                (case rcf_hash s of
                   None \<Rightarrow> Inl AttributeError
                 | Some h \<Rightarrow> Inr (md5 env h, s\<lparr>rcf_digest := Some (md5 env h), rcf_hash := None\<rparr>))) of
        Inl e \<Rightarrow> Inl e
      | Inr (d, s1) \<Rightarrow>
          Inr (slice_to d digest_count, s1\<lparr>rcf_offset := rcf_offset s1 + digest_count\<rparr>))"

text \<open>
  \<^verbatim>\<open>read(size)\<close> with the clock reading \<open>now\<close> of its \<^verbatim>\<open>_mark_chunk\<close>. The result
  is \<open>None\<close> when the loop does not return, \<open>Some (Inl e)\<close> when \<open>e\<close> is raised and
  \<open>Some (Inr (data, s'))\<close> when \<open>data\<close> is returned and the object has become \<open>s'\<close>.
\<close>

definition rcf_read ::
  "('g, 't) env \<Rightarrow> ('g, 't) rcf \<Rightarrow> int \<Rightarrow> 't \<Rightarrow> (error + bytes \<times> ('g, 't) rcf) option" where
  "rcf_read env s n now =
     (let sz = (if n < 0 then rcf_size s - rcf_offset s else n);
          random_count = min sz (rcf_size s - rcf_offset s - digest_size)
      in case (if random_count > 0
               then (case read_random env s random_count of
                       None \<Rightarrow> None
                     | Some (data, s1) \<Rightarrow> Some (data, s1, sz - random_count))
               else Some ([], s, sz)) of
           None \<Rightarrow> None
         | Some (r1, s1, sz1) \<Rightarrow>
             (let digest_count = min sz1 (rcf_size s1 - rcf_offset s1)
              in Some (case (if digest_count > 0 then read_digest env s1 digest_count
                             else Inr ([], s1)) of
                         Inl e \<Rightarrow> Inl e
                       | Inr (r2, s2) \<Rightarrow> Inr (r1 @ r2, rcf_mark_chunk env now s2))))"

text \<open>
  A caller that issues the calls \<^verbatim>\<open>read(n)\<close> of a list one after the other, each with
  its clock reading, and collects what they return; it stops at the first call that
  raises or does not return.
\<close>

fun rcf_reads ::
  "('g, 't) env \<Rightarrow> ('g, 't) rcf \<Rightarrow> (int \<times> 't) list
     \<Rightarrow> (error + bytes list \<times> ('g, 't) rcf) option" where
  "rcf_reads env s [] = Some (Inr ([], s))"
| "rcf_reads env s (c # cs) =
     (case rcf_read env s (fst c) (snd c) of
        None \<Rightarrow> None
      | Some (Inl e) \<Rightarrow> Some (Inl e)
      | Some (Inr (d, s1)) \<Rightarrow>
          (case rcf_reads env s1 cs of
             None \<Rightarrow> None
           | Some (Inl e) \<Rightarrow> Some (Inl e)
           | Some (Inr (ds, s2)) \<Rightarrow> Some (Inr (d # ds, s2))))"

text \<open>What the caller sees of a call or of a run: the bytes, without the object.\<close>

definition returned :: "(error + 'a \<times> 's) option \<Rightarrow> (error + 'a) option" where
  "returned r = map_option (map_sum id fst) r"

section \<open>PrecomputedContentFile\<close>

text \<open>
  \<^verbatim>\<open>self._file\<close> is a \<^verbatim>\<open>tempfile.SpooledTemporaryFile\<close> of the standard library:
  its states are the type \<open>'f\<close>, and its \<^verbatim>\<open>seek\<close> is the parameter \<open>file_seek\<close>, which
  returns the file with the cursor moved, or what it raises (\<open>'e\<close>). As above the
  record is the object after \<^verbatim>\<open>__init__\<close> has returned.
\<close>

record ('f, 't) pcf =
  pcf_file :: 'f
  pcf_last_chunks :: "chunk list option"
  pcf_chunks :: "chunk list"
  pcf_last_seek :: 't

definition pcf_seek ::
  "('f \<Rightarrow> int \<Rightarrow> 'e + 'f) \<Rightarrow> ('f, 't) pcf \<Rightarrow> int \<Rightarrow> 't \<Rightarrow> 'e + ('f, 't) pcf" where
  "pcf_seek file_seek s offset now =
     (case file_seek (pcf_file s) offset of
        Inl e \<Rightarrow> Inl e
      | Inr f \<Rightarrow>
          (let s1 = s\<lparr>pcf_file := f\<rparr>
           in if offset = 0
              then Inr (s1\<lparr>pcf_last_chunks := Some (pcf_chunks s1),
                          pcf_last_seek := now,
                          pcf_chunks := []\<rparr>)
              else Inr s1))"

section \<open>FileVerifier\<close>

text \<open>\<open>fv_hash\<close> is \<^verbatim>\<open>self.hash\<close>, the bytes fed to the MD5 object so far.\<close>

record 't fv =
  fv_size :: int
  fv_hash :: bytes
  fv_buf :: bytes
  fv_created_at :: 't
  fv_chunks :: "chunk list"

definition FileVerifier :: "'t \<Rightarrow> 't fv" where
  "FileVerifier now =
     \<lparr>fv_size = 0, fv_hash = [], fv_buf = [], fv_created_at = now, fv_chunks = []\<rparr>"

definition fv_mark_chunk :: "('g, 't) env \<Rightarrow> 't \<Rightarrow> 't fv \<Rightarrow> 't fv" where
  "fv_mark_chunk env now s =
     s\<lparr>fv_chunks := fv_chunks s @ [(fv_size s, elapsed_nsec env now (fv_created_at s))]\<rparr>"

definition fv_write :: "('g, 't) env \<Rightarrow> 't fv \<Rightarrow> bytes \<Rightarrow> 't \<Rightarrow> 't fv" where
  "fv_write env s data now =
     (let buf = fv_buf s @ data;
          digsz = - 1 * digest_size;
          new_data = slice_to buf digsz
      in fv_mark_chunk env now
           (s\<lparr>fv_size := fv_size s + int (length data),
              fv_buf := slice_from buf digsz,
              fv_hash := fv_hash s @ new_data\<rparr>))"

text \<open>
  \<^verbatim>\<open>valid()\<close> returns a truth value; the object it leaves behind is returned with it.
  \<^verbatim>\<open>d.startswith(b)\<close> holds when \<open>b\<close> is a prefix of \<open>d\<close>.
\<close>

definition fv_valid :: "('g, 't) env \<Rightarrow> 't fv \<Rightarrow> bool \<times> 't fv" where
  "fv_valid env s =
     (if fv_size s < digest_size
      then (prefix (fv_buf s) (md5 env (fv_hash s)), s)
      else (fv_buf s = md5 env (fv_hash s), s))"

text \<open>A caller that writes the chunks of a list one after the other.\<close>

fun fv_writes :: "('g, 't) env \<Rightarrow> 't fv \<Rightarrow> (bytes \<times> 't) list \<Rightarrow> 't fv" where
  "fv_writes env s [] = s"
| "fv_writes env s (w # ws) = fv_writes env (fv_write env s (fst w) (snd w)) ws"

text \<open>
  A caller that mixes \<^verbatim>\<open>write\<close> and \<^verbatim>\<open>valid\<close> calls; it collects the answers of the
  \<^verbatim>\<open>valid\<close> calls and goes on with the object each call leaves behind.
\<close>

datatype 't fv_call = Write bytes 't | Valid

fun fv_calls :: "('g, 't) env \<Rightarrow> 't fv \<Rightarrow> 't fv_call list \<Rightarrow> bool list \<times> 't fv" where
  "fv_calls env s [] = ([], s)"
| "fv_calls env s (Write d t # cs) = fv_calls env (fv_write env s d t) cs"
| "fv_calls env s (Valid # cs) =
     (fst (fv_valid env s) # fst (fv_calls env (snd (fv_valid env s)) cs),
      snd (fv_calls env (snd (fv_valid env s)) cs))"

section \<open>Notions used in the statements and proofs\<close>

text \<open>The calls of a mixed run that are writes, in order.\<close>

fun writes_of :: "'t fv_call list \<Rightarrow> (bytes \<times> 't) list" where
  "writes_of [] = []"
| "writes_of (Write d t # cs) = (d, t) # writes_of cs"
| "writes_of (Valid # cs) = writes_of cs"

text \<open>
  The bytes of the first \<open>n\<close> values the generator yields from state \<open>g\<close>, and the
  number of values one call of \<^verbatim>\<open>_generate\<close> draws.
\<close>

definition gen_bytes :: "('g \<Rightarrow> 64 word \<times> 'g) \<Rightarrow> nat \<Rightarrow> 'g \<Rightarrow> bytes" where
  "gen_bytes nxt n g = pack_Qs (fst (draw nxt n g))"

definition words_per_call :: "int \<Rightarrow> nat" where
  "words_per_call self_size = nat (- (- min self_size (1 * 1024 * 1024) div 8))"

text \<open>
  The pseudorandom payload: the first \<open>m\<close> bytes of the sequence of packed 64-bit
  values that the generator yields after \<^verbatim>\<open>seed(seed)\<close>. \<open>(m + 7) div 8\<close> values are
  the fewest that cover \<open>m\<close> bytes.
\<close>

definition random_bytes :: "('g, 't) env \<Rightarrow> int \<Rightarrow> nat \<Rightarrow> bytes" where
  "random_bytes env seed m =
     take m (pack_Qs (fst (draw (getrandbits64 env) ((m + 7) div 8) (seed_rng env seed))))"

text \<open>
  What \<^verbatim>\<open>read\<close> does after its first block: the second block, \<^verbatim>\<open>_mark_chunk\<close> and the
  join of the parts, given the part \<open>r1\<close> read so far, the object and the local
  \<^verbatim>\<open>size\<close>.
\<close>

definition read_tail ::
  "('g, 't) env \<Rightarrow> 't \<Rightarrow> bytes \<Rightarrow> ('g, 't) rcf \<Rightarrow> int \<Rightarrow> error + bytes \<times> ('g, 't) rcf" where
  "read_tail env now r1 s1 sz1 =
     (let digest_count = min sz1 (rcf_size s1 - rcf_offset s1)
      in case (if digest_count > 0 then read_digest env s1 digest_count else Inr ([], s1)) of
           Inl e \<Rightarrow> Inl e
         | Inr (r2, s2) \<Rightarrow> Inr (r1 @ r2, rcf_mark_chunk env now s2))"

text \<open>
  Every object that \<^verbatim>\<open>__init__\<close>, \<^verbatim>\<open>seek\<close> and \<^verbatim>\<open>read\<close> produce has a non-negative
  offset and holds a hash object as long as it holds no digest.
\<close>

definition rcf_inv :: "('g, 't) rcf \<Rightarrow> bool" where
  "rcf_inv s = (0 \<le> rcf_offset s \<and> (rcf_digest s = None \<longrightarrow> rcf_hash s \<noteq> None))"

text \<open>The attributes of the object other than the chunk records and their clock.\<close>

definition rcf_core ::
  "('g, 't) rcf \<Rightarrow> int \<times> int \<times> 'g \<times> int \<times> bytes \<times> bytes option \<times> bytes option" where
  "rcf_core s = (rcf_size s, rcf_seed s, rcf_random s, rcf_offset s, rcf_buffer s,
                 rcf_hash s, rcf_digest s)"

text \<open>
  The object after \<open>m\<close> payload bytes have been read and none of the trailer: the hash
  object has been fed those \<open>m\<close> bytes, no digest is held, and the leftover buffer is
  what the generator has yielded so far without its first \<open>m\<close> bytes.
\<close>

definition payload_state ::
  "('g, 't) env \<Rightarrow> int \<Rightarrow> int \<Rightarrow> nat \<Rightarrow> ('g, 't) rcf \<Rightarrow> bool" where
  "payload_state env sz seed m s =
     (rcf_size s = sz \<and> rcf_offset s = int m \<and> rcf_digest s = None
      \<and> rcf_hash s = Some (random_bytes env seed m)
      \<and> (\<exists>k. m \<le> 8 * k
             \<and> rcf_buffer s = drop m (gen_bytes (getrandbits64 env) k (seed_rng env seed))
             \<and> rcf_random s = snd (draw (getrandbits64 env) k (seed_rng env seed))))"

text \<open>The state of a verifier that has been given the bytes \<open>seen\<close>.\<close>

definition fv_inv :: "'t fv \<Rightarrow> bytes \<Rightarrow> bool" where
  "fv_inv s seen =
     (fv_hash s @ fv_buf s = seen \<and> length (fv_buf s) = min 16 (length seen)
      \<and> fv_size s = int (length seen))"

text \<open>
  A small instance of the library parameters, for concrete runs of the model: a
  16-byte digest that is not MD5, a linear congruential generator, a clock that counts
  whole seconds; and a file of contents and cursor whose \<^verbatim>\<open>seek\<close> moves the cursor and
  takes a negative offset to the start.
\<close>

definition toy_md5 :: "bytes \<Rightarrow> bytes" where
  "toy_md5 x = map (\<lambda>i. of_nat (i + length x)) [0..<16]"

definition toy_env :: "(64 word, int) env" where
  "toy_env =
     \<lparr>md5 = toy_md5, seed_rng = word_of_int,
      getrandbits64 = (\<lambda>g. (g * 6364136223846793005 + 1442695040888963407,
                             g * 6364136223846793005 + 1442695040888963407)),
      elapsed_nsec = (\<lambda>now start. (now - start) * 1000000000)\<rparr>"

definition clamp_seek :: "bytes \<times> nat \<Rightarrow> int \<Rightarrow> error + bytes \<times> nat" where
  "clamp_seek f offset = Inr (fst f, nat offset)"

section \<open>Slices and the verifier's window\<close>

lemma slice_to_nonneg: "0 \<le> j \<Longrightarrow> slice_to s j = take (nat j) s"
  by (simp add: slice_to_def py_bound_def min_def)

lemma slice_from_nonneg: "0 \<le> i \<Longrightarrow> slice_from s i = drop (nat i) s"
  by (simp add: slice_from_def py_bound_def min_def)

lemma slice_to_digsz: "slice_to s (- digest_size) = take (length s - 16) s"
  by (simp add: slice_to_def py_bound_def digest_size_def nat_diff_distrib')

lemma slice_from_digsz: "slice_from s (- digest_size) = drop (length s - 16) s"
  by (simp add: slice_from_def py_bound_def digest_size_def nat_diff_distrib')

lemma fv_write_fields:
  "fv_size (fv_write env s d t) = fv_size s + int (length d)"
  "fv_hash (fv_write env s d t) = fv_hash s @ take (length (fv_buf s @ d) - 16) (fv_buf s @ d)"
  "fv_buf (fv_write env s d t) = drop (length (fv_buf s @ d) - 16) (fv_buf s @ d)"
  "fv_created_at (fv_write env s d t) = fv_created_at s"
  by (simp_all add: fv_write_def fv_mark_chunk_def Let_def slice_to_digsz slice_from_digsz
        del: take_append drop_append)

lemma fv_write_step:
  "fv_hash (fv_write env s d t) @ fv_buf (fv_write env s d t) = fv_hash s @ fv_buf s @ d"
  "length (fv_buf (fv_write env s d t)) \<le> 16"
  by (simp_all add: fv_write_fields del: take_append drop_append)

lemma fv_inv_init: "fv_inv (FileVerifier t) []"
  by (simp add: fv_inv_def FileVerifier_def)

lemma fv_inv_write:
  assumes "fv_inv s seen"
  shows "fv_inv (fv_write env s d t) (seen @ d)"
proof -
  define b where "b = fv_buf s @ d"
  have h: "fv_hash (fv_write env s d t) = fv_hash s @ take (length b - 16) b"
    and u: "fv_buf (fv_write env s d t) = drop (length b - 16) b"
    by (simp_all only: fv_write_fields b_def)
  from assms have s: "fv_hash s @ b = seen @ d"
    by (simp add: fv_inv_def b_def)
  from assms have lb: "length b = min 16 (length seen) + length d"
    by (simp add: fv_inv_def b_def)
  have 1: "fv_hash (fv_write env s d t) @ fv_buf (fv_write env s d t) = seen @ d"
    using s by (simp add: h u)
  have 2: "length (fv_buf (fv_write env s d t)) = min 16 (length (seen @ d))"
    using lb by (simp add: u min_def)
  have 3: "fv_size (fv_write env s d t) = int (length (seen @ d))"
    using assms by (simp add: fv_write_fields fv_inv_def)
  from 1 2 3 show ?thesis by (simp only: fv_inv_def)
qed

lemma fv_inv_writes:
  "fv_inv s seen \<Longrightarrow> fv_inv (fv_writes env s ws) (seen @ concat (map fst ws))"
proof (induction ws arbitrary: s seen)
  case Nil
  then show ?case by simp
next
  case (Cons w ws)
  have "fv_inv (fv_write env s (fst w) (snd w)) (seen @ fst w)"
    by (rule fv_inv_write[OF Cons.prems])
  from Cons.IH[OF this] show ?case by simp
qed

lemma fv_inv_split:
  assumes "fv_inv s seen"
  shows "fv_hash s = take (length seen - 16) seen \<and> fv_buf s = drop (length seen - 16) seen"
proof -
  from assms have e: "fv_hash s @ fv_buf s = seen"
    by (simp add: fv_inv_def)
  then have "length (fv_hash s) + length (fv_buf s) = length seen"
    by (simp flip: length_append)
  with assms have "length (fv_hash s) = length seen - 16"
    by (simp add: fv_inv_def min_def split: if_splits)
  with e show ?thesis
    by (metis append_eq_conv_conj)
qed

lemma fv_valid_seen:
  assumes "fv_inv s seen"
  shows "fst (fv_valid env s) =
     (if length seen < 16 then prefix seen (md5 env [])
      else drop (length seen - 16) seen = md5 env (take (length seen - 16) seen))"
  using fv_inv_split[OF assms] assms
  by (auto simp: fv_valid_def digest_size_def fv_inv_def)

lemma fv_valid_snd: "snd (fv_valid env s) = s"
  by (simp add: fv_valid_def)

lemma fv_calls_state: "snd (fv_calls env s cs) = fv_writes env s (writes_of cs)"
proof (induction cs arbitrary: s)
  case Nil
  show ?case by simp
next
  case (Cons c cs)
  then show ?case by (cases c) (simp_all add: fv_valid_snd)
qed

lemma fv_calls_append:
  "fv_calls env s (cs @ cs') =
     (fst (fv_calls env s cs) @ fst (fv_calls env (snd (fv_calls env s cs)) cs'),
      snd (fv_calls env (snd (fv_calls env s cs)) cs'))"
proof (induction cs arbitrary: s)
  case Nil
  show ?case by simp
next
  case (Cons c cs)
  then show ?case by (cases c) (simp_all add: fv_valid_snd)
qed

section \<open>The generator and the fill loop\<close>

lemma draw_length: "length (fst (draw nxt n g)) = n"
  by (induction n arbitrary: g) (simp_all add: split_beta Let_def)

lemma draw_add:
  "draw nxt (a + b) g =
     (fst (draw nxt a g) @ fst (draw nxt b (snd (draw nxt a g))),
      snd (draw nxt b (snd (draw nxt a g))))"
  by (induction a arbitrary: g) (simp_all add: split_beta Let_def)

lemma pack_Q_length: "length (pack_Q w) = 8"
  by (simp add: pack_Q_def)

lemma pack_Qs_length: "length (pack_Qs l) = 8 * length l"
  by (induction l) (simp_all add: pack_Qs_def pack_Q_length)

lemma pack_Qs_append: "pack_Qs (xs @ ys) = pack_Qs xs @ pack_Qs ys"
  by (simp add: pack_Qs_def)

lemma gen_bytes_length: "length (gen_bytes nxt n g) = 8 * n"
  by (simp add: gen_bytes_def pack_Qs_length draw_length)

lemma gen_bytes_add:
  "gen_bytes nxt (a + b) g = gen_bytes nxt a g @ gen_bytes nxt b (snd (draw nxt a g))"
  by (simp add: gen_bytes_def draw_add pack_Qs_append)

lemma draw_add_snd: "snd (draw nxt (a + b) g) = snd (draw nxt b (snd (draw nxt a g)))"
  by (simp add: draw_add)

lemma gen_bytes_take:
  assumes "m \<le> 8 * a" "a \<le> b"
  shows "take m (gen_bytes nxt b g) = take m (gen_bytes nxt a g)"
proof -
  from assms(2) obtain c where b: "b = a + c" by (auto simp: le_iff_add)
  show ?thesis using assms(1) by (simp add: b gen_bytes_add gen_bytes_length)
qed

lemma rcf_generate_eq:
  "rcf_generate nxt sz g =
     (gen_bytes nxt (words_per_call sz) g, snd (draw nxt (words_per_call sz) g))"
  by (simp add: rcf_generate_def words_per_call_def gen_bytes_def Let_def split_beta)

lemma words_per_call_pos: "0 < sz \<Longrightarrow> 0 < words_per_call sz"
proof -
  assume "0 < sz"
  then have "- min sz (1 * 1024 * 1024) div 8 < 0" by (simp add: min_def) presburger
  then show ?thesis by (simp add: words_per_call_def)
qed

lemma fill_buffer_stop:
  "\<not> int (length buf) < rc \<Longrightarrow> fill_buffer nxt sz rc (buf, g) = Some (buf, g)"
  by (subst fill_buffer.simps) simp

lemma fill_buffer_step:
  "int (length buf) < rc \<Longrightarrow>
   fill_buffer nxt sz rc (buf, g) =
     fill_buffer nxt sz rc (buf @ gen_bytes nxt (words_per_call sz) g,
                            snd (draw nxt (words_per_call sz) g))"
  by (subst fill_buffer.simps) (simp add: rcf_generate_eq)

lemma fill_buffer_returns:
  assumes "0 < words_per_call sz"
  shows "\<exists>k. fill_buffer nxt sz rc (buf, g) =
               Some (buf @ gen_bytes nxt k g, snd (draw nxt k g))
             \<and> rc \<le> int (length (buf @ gen_bytes nxt k g))"
proof (induction "nat (rc - int (length buf))" arbitrary: buf g rule: less_induct)
  case less
  show ?case
  proof (cases "int (length buf) < rc")
    case False
    then have "fill_buffer nxt sz rc (buf, g) = Some (buf @ gen_bytes nxt 0 g, snd (draw nxt 0 g))"
      by (simp add: fill_buffer_stop gen_bytes_def pack_Qs_def)
    moreover have "rc \<le> int (length (buf @ gen_bytes nxt 0 g))"
      using False by simp
    ultimately show ?thesis by blast
  next
    case True
    let ?c = "words_per_call sz"
    let ?buf = "buf @ gen_bytes nxt ?c g"
    let ?g = "snd (draw nxt ?c g)"
    have "nat (rc - int (length ?buf)) < nat (rc - int (length buf))"
      using True assms by (simp add: gen_bytes_length)
    from less[OF this] obtain k where
      k: "fill_buffer nxt sz rc (?buf, ?g) = Some (?buf @ gen_bytes nxt k ?g, snd (draw nxt k ?g))"
      and l: "rc \<le> int (length (?buf @ gen_bytes nxt k ?g))" by blast
    have "fill_buffer nxt sz rc (buf, g) =
            Some (buf @ gen_bytes nxt (?c + k) g, snd (draw nxt (?c + k) g))"
      using k by (simp add: fill_buffer_step[OF True] gen_bytes_add draw_add_snd)
    moreover have "rc \<le> int (length (buf @ gen_bytes nxt (?c + k) g))"
      using l by (simp add: gen_bytes_add)
    ultimately show ?thesis by blast
  qed
qed

lemma random_bytes_length: "length (random_bytes env seed m) = m"
  by (simp add: random_bytes_def pack_Qs_length draw_length)

lemma random_bytes_gen:
  "m \<le> 8 * k \<Longrightarrow> take m (gen_bytes (getrandbits64 env) k (seed_rng env seed)) = random_bytes env seed m"
proof -
  assume a: "m \<le> 8 * k"
  have 1: "m \<le> 8 * ((m + 7) div 8)" by presburger
  from a have 2: "(m + 7) div 8 \<le> k" by presburger
  show ?thesis
    unfolding random_bytes_def gen_bytes_def[symmetric]
    by (rule gen_bytes_take[OF 1 2])
qed

lemma read_random_returns:
  assumes "0 < rc" "rc \<le> rcf_size s - rcf_offset s - digest_size" "0 \<le> rcf_offset s"
  shows "\<exists>k. read_random env s rc =
           Some (take (nat rc) (rcf_buffer s @ gen_bytes (getrandbits64 env) k (rcf_random s)),
                 s\<lparr>rcf_random := snd (draw (getrandbits64 env) k (rcf_random s)),
                   rcf_offset := rcf_offset s + rc,
                   rcf_buffer := drop (nat rc) (rcf_buffer s @ gen_bytes (getrandbits64 env) k (rcf_random s)),
                   rcf_hash := (case rcf_hash s of None \<Rightarrow> None
                      | Some h \<Rightarrow> Some (h @ take (nat rc) (rcf_buffer s @ gen_bytes (getrandbits64 env) k (rcf_random s))))\<rparr>)
           \<and> rc \<le> int (length (rcf_buffer s @ gen_bytes (getrandbits64 env) k (rcf_random s)))"
proof -
  from assms have "0 < rcf_size s" by (simp add: digest_size_def)
  then have "0 < words_per_call (rcf_size s)" by (rule words_per_call_pos)
  from fill_buffer_returns[OF this, of "getrandbits64 env" rc "rcf_buffer s" "rcf_random s"]
  obtain k where k: "fill_buffer (getrandbits64 env) (rcf_size s) rc (rcf_buffer s, rcf_random s) =
               Some (rcf_buffer s @ gen_bytes (getrandbits64 env) k (rcf_random s), snd (draw (getrandbits64 env) k (rcf_random s)))"
     and l: "rc \<le> int (length (rcf_buffer s @ gen_bytes (getrandbits64 env) k (rcf_random s)))"
    by blast
  have "0 \<le> rc" using assms(1) by simp
  then show ?thesis using l
    by (intro exI[of _ k]) (simp add: read_random_def k Let_def slice_to_nonneg slice_from_nonneg del: take_append drop_append length_append)
qed

section \<open>One call of read\<close>

lemma rcf_read_skip:
  assumes "sz = (if n < 0 then rcf_size s - rcf_offset s else n)"
    and "rc = min sz (rcf_size s - rcf_offset s - digest_size)"
    and "\<not> 0 < rc"
  shows "rcf_read env s n now = Some (read_tail env now [] s sz)"
proof -
  have "rcf_read env s n now =
     (case (if rc > 0
               then (case read_random env s rc of
                       None \<Rightarrow> None
                     | Some (data, s1) \<Rightarrow> Some (data, s1, sz - rc))
               else Some ([], s, sz)) of
           None \<Rightarrow> None
         | Some (r1, s1, sz1) \<Rightarrow> Some (read_tail env now r1 s1 sz1))"
    by (simp only: rcf_read_def Let_def read_tail_def assms(1)[symmetric] assms(2)[symmetric])
  with assms(3) show ?thesis by simp
qed

lemma rcf_read_random:
  assumes "sz = (if n < 0 then rcf_size s - rcf_offset s else n)"
    and "rc = min sz (rcf_size s - rcf_offset s - digest_size)"
    and "0 < rc"
    and "read_random env s rc = Some (data, s1)"
  shows "rcf_read env s n now = Some (read_tail env now data s1 (sz - rc))"
proof -
  have "rcf_read env s n now =
     (case (if rc > 0
               then (case read_random env s rc of
                       None \<Rightarrow> None
                     | Some (data, s1) \<Rightarrow> Some (data, s1, sz - rc))
               else Some ([], s, sz)) of
           None \<Rightarrow> None
         | Some (r1, s1, sz1) \<Rightarrow> Some (read_tail env now r1 s1 sz1))"
    by (simp only: rcf_read_def Let_def read_tail_def assms(1)[symmetric] assms(2)[symmetric])
  with assms(3,4) show ?thesis by simp
qed

lemma read_tail_returns:
  assumes "rcf_inv s1"
  shows "\<exists>d s'. read_tail env now r1 s1 sz1 = Inr (r1 @ d, s') \<and> rcf_inv s'
            \<and> rcf_size s' = rcf_size s1 \<and> rcf_seed s' = rcf_seed s1"
  using assms
  by (cases "rcf_digest s1"; cases "rcf_hash s1")
     (auto simp: read_tail_def read_digest_def rcf_inv_def rcf_mark_chunk_def Let_def)

lemma rcf_read_returns:
  assumes "rcf_inv s"
  shows "\<exists>d s'. rcf_read env s n now = Some (Inr (d, s')) \<and> rcf_inv s'
            \<and> rcf_size s' = rcf_size s \<and> rcf_seed s' = rcf_seed s"
proof -
  define sz where "sz = (if n < 0 then rcf_size s - rcf_offset s else n)"
  define rc where "rc = min sz (rcf_size s - rcf_offset s - digest_size)"
  show ?thesis
  proof (cases "0 < rc")
    case False
    have "rcf_read env s n now = Some (read_tail env now [] s sz)"
      by (rule rcf_read_skip[OF sz_def rc_def False])
    with read_tail_returns[OF assms, of env now "[]" sz] show ?thesis by auto
  next
    case True
    have le: "rc \<le> rcf_size s - rcf_offset s - digest_size" by (simp add: rc_def)
    have o: "0 \<le> rcf_offset s" using assms by (simp add: rcf_inv_def)
    from read_random_returns[OF True le o, of env] obtain data s1 where
      rr: "read_random env s rc = Some (data, s1)"
      and s1: "rcf_offset s1 = rcf_offset s + rc" "rcf_size s1 = rcf_size s" "rcf_seed s1 = rcf_seed s"
        "rcf_digest s1 = rcf_digest s" "(rcf_hash s1 = None) = (rcf_hash s = None)"
      by (cases "rcf_hash s") auto
    have inv1: "rcf_inv s1" using assms True s1 by (simp add: rcf_inv_def)
    have "rcf_read env s n now = Some (read_tail env now data s1 (sz - rc))"
      by (rule rcf_read_random[OF sz_def rc_def True rr])
    with read_tail_returns[OF inv1, of env now data "sz - rc"] s1 show ?thesis by auto
  qed
qed

lemma rcf_inv_init: "rcf_inv (RandomContentFile env sz seed t)"
  by (simp add: rcf_inv_def RandomContentFile_def)

lemma rcf_reads_returns:
  assumes "rcf_inv s"
  shows "\<exists>ds s'. rcf_reads env s cs = Some (Inr (ds, s')) \<and> rcf_inv s'
            \<and> rcf_size s' = rcf_size s \<and> rcf_seed s' = rcf_seed s \<and> length ds = length cs"
  using assms
proof (induction cs arbitrary: s)
  case Nil
  then show ?case by simp
next
  case (Cons c cs)
  from rcf_read_returns[OF Cons.prems, of env "fst c" "snd c"] obtain d s1 where
    1: "rcf_read env s (fst c) (snd c) = Some (Inr (d, s1))" "rcf_inv s1"
       "rcf_size s1 = rcf_size s" "rcf_seed s1 = rcf_seed s" by blast
  from Cons.IH[OF 1(2)] obtain ds s2 where
    2: "rcf_reads env s1 cs = Some (Inr (ds, s2))" "rcf_inv s2"
       "rcf_size s2 = rcf_size s1" "rcf_seed s2 = rcf_seed s1" "length ds = length cs" by blast
  show ?case using 1 2 by simp
qed

lemma random_bytes_0: "random_bytes env seed 0 = []"
  by (simp add: random_bytes_def)

lemma read_tail_fresh:
  assumes "rcf_digest s1 = None" "rcf_hash s1 = Some h"
  shows "map_sum id fst (read_tail env now r1 s1 sz1) =
           Inr (r1 @ take (nat (min sz1 (rcf_size s1 - rcf_offset s1))) (md5 env h))"
proof -
  define dc where "dc = min sz1 (rcf_size s1 - rcf_offset s1)"
  have "map_sum id fst (read_tail env now r1 s1 sz1) = Inr (r1 @ take (nat dc) (md5 env h))"
  proof (cases "0 < dc")
    case True
    then show ?thesis using assms
      by (simp add: read_tail_def read_digest_def Let_def slice_to_nonneg dc_def[symmetric])
  next
    case False
    then show ?thesis
      by (simp add: read_tail_def Let_def dc_def[symmetric])
  qed
  then show ?thesis by (simp only: dc_def)
qed

lemma read_all_fresh:
  assumes "n < 0 \<or> sz0 \<le> n"
  shows "returned (rcf_read env (RandomContentFile env sz0 seed t0) n t1) =
     Some (Inr (random_bytes env seed (nat (sz0 - 16))
                @ take (nat (min sz0 16)) (md5 env (random_bytes env seed (nat (sz0 - 16))))))"
proof -
  define s where "s = RandomContentFile env sz0 seed t0"
  define sz where "sz = (if n < 0 then rcf_size s - rcf_offset s else n)"
  have f: "rcf_size s = sz0" "rcf_offset s = 0" "rcf_buffer s = []" "rcf_hash s = Some []"
     "rcf_digest s = None" "rcf_random s = seed_rng env seed"
    by (simp_all add: s_def RandomContentFile_def)
  have ge: "sz0 \<le> sz"
    using assms by (auto simp: sz_def f)
  have rc: "sz0 - 16 = min sz (rcf_size s - rcf_offset s - digest_size)"
    using ge by (simp add: f digest_size_def)
  show ?thesis
  proof (cases "0 < sz0 - 16")
    case False
    have "rcf_read env s n t1 = Some (read_tail env t1 [] s sz)"
      by (rule rcf_read_skip[OF sz_def rc False])
    moreover have "random_bytes env seed (nat (sz0 - 16)) = []"
      using False by (simp add: random_bytes_0)
    moreover have "min sz (rcf_size s - rcf_offset s) = min sz0 16"
      using False ge by (simp add: f)
    ultimately show ?thesis
      using read_tail_fresh[of s "[]" env t1 "[]" sz]
      by (simp add: returned_def f s_def[symmetric])
  next
    case True
    define P where "P = random_bytes env seed (nat (sz0 - 16))"
    have le: "sz0 - 16 \<le> rcf_size s - rcf_offset s - digest_size"
      by (simp add: f digest_size_def)
    have o: "0 \<le> rcf_offset s"
      by (simp add: f)
    from read_random_returns[OF True le o, of env] obtain k where
      rr: "read_random env s (sz0 - 16) =
            Some (take (nat (sz0 - 16)) (gen_bytes (getrandbits64 env) k (seed_rng env seed)),
                 s\<lparr>rcf_random := snd (draw (getrandbits64 env) k (seed_rng env seed)),
                   rcf_offset := sz0 - 16,
                   rcf_buffer := drop (nat (sz0 - 16))
                                   (gen_bytes (getrandbits64 env) k (seed_rng env seed)),
                   rcf_hash := Some (take (nat (sz0 - 16))
                                   (gen_bytes (getrandbits64 env) k (seed_rng env seed)))\<rparr>)"
      and l: "sz0 - 16 \<le> int (length (gen_bytes (getrandbits64 env) k (seed_rng env seed)))"
      by (auto simp: f)
    from l have "nat (sz0 - 16) \<le> 8 * k"
      by (simp add: gen_bytes_length)
    from random_bytes_gen[OF this]
    have p: "take (nat (sz0 - 16)) (gen_bytes (getrandbits64 env) k (seed_rng env seed)) = P"
      by (simp only: P_def)
    define s1 where "s1 = s\<lparr>rcf_random := snd (draw (getrandbits64 env) k (seed_rng env seed)),
                   rcf_offset := sz0 - 16,
                   rcf_buffer := drop (nat (sz0 - 16))
                                   (gen_bytes (getrandbits64 env) k (seed_rng env seed)),
                   rcf_hash := Some P\<rparr>"
    have rr': "read_random env s (sz0 - 16) = Some (P, s1)"
      by (simp only: rr p s1_def)
    have f1: "rcf_digest s1 = None" "rcf_hash s1 = Some P" "rcf_size s1 = sz0"
      "rcf_offset s1 = sz0 - 16"
      by (simp_all add: s1_def f)
    have "rcf_read env s n t1 = Some (read_tail env t1 P s1 (sz - (sz0 - 16)))"
      by (rule rcf_read_random[OF sz_def rc True rr'])
    moreover have "min (sz - (sz0 - 16)) (rcf_size s1 - rcf_offset s1) = min sz0 16"
      using True ge by (simp add: f1)
    ultimately show ?thesis
      using read_tail_fresh[OF f1(1,2), of env t1 P "sz - (sz0 - 16)"]
      by (simp add: returned_def s_def[symmetric] P_def[symmetric])
  qed
qed

section \<open>The bytes do not depend on the chunk records\<close>

lemma rcf_core_eqD:
  assumes "rcf_core s = rcf_core s'"
  shows "rcf_size s' = rcf_size s" "rcf_seed s' = rcf_seed s" "rcf_random s' = rcf_random s"
    "rcf_offset s' = rcf_offset s" "rcf_buffer s' = rcf_buffer s" "rcf_hash s' = rcf_hash s"
    "rcf_digest s' = rcf_digest s"
  using assms by (simp_all add: rcf_core_def)

lemma read_random_core:
  assumes "rcf_core s = rcf_core s'"
  shows "map_option (map_prod id rcf_core) (read_random env s rc)
       = map_option (map_prod id rcf_core) (read_random env s' rc)"
  by (simp add: read_random_def rcf_core_eqD[OF assms] Let_def rcf_core_def split: option.splits)

lemma read_tail_core:
  assumes "rcf_core s = rcf_core s'"
  shows "map_sum id (map_prod id rcf_core) (read_tail env t r1 s sz1)
       = map_sum id (map_prod id rcf_core) (read_tail env t' r1 s' sz1)"
  by (simp add: read_tail_def read_digest_def rcf_mark_chunk_def rcf_core_eqD[OF assms] Let_def
        rcf_core_def split: option.splits)

lemma rcf_read_stages:
  "rcf_read env s n now =
     (let sz = (if n < 0 then rcf_size s - rcf_offset s else n);
          random_count = min sz (rcf_size s - rcf_offset s - digest_size)
      in if random_count > 0
         then (case read_random env s random_count of
                 None \<Rightarrow> None
               | Some (data, s1) \<Rightarrow> Some (read_tail env now data s1 (sz - random_count)))
         else Some (read_tail env now [] s sz))"
  by (simp add: rcf_read_def read_tail_def Let_def split: option.splits)

lemma rcf_read_core:
  assumes "rcf_core s = rcf_core s'"
  shows "map_option (map_sum id (map_prod id rcf_core)) (rcf_read env s n t)
       = map_option (map_sum id (map_prod id rcf_core)) (rcf_read env s' n t')"
proof -
  define sz where "sz = (if n < 0 then rcf_size s - rcf_offset s else n)"
  define rc where "rc = min sz (rcf_size s - rcf_offset s - digest_size)"
  have a: "rcf_read env s n t = (if rc > 0
         then (case read_random env s rc of
                 None \<Rightarrow> None
               | Some (data, s1) \<Rightarrow> Some (read_tail env t data s1 (sz - rc)))
         else Some (read_tail env t [] s sz))"
    by (simp only: rcf_read_stages Let_def sz_def rc_def)
  have b: "rcf_read env s' n t' = (if rc > 0
         then (case read_random env s' rc of
                 None \<Rightarrow> None
               | Some (data, s1) \<Rightarrow> Some (read_tail env t' data s1 (sz - rc)))
         else Some (read_tail env t' [] s' sz))"
    by (simp only: rcf_read_stages Let_def sz_def rc_def rcf_core_eqD[OF assms])
  show ?thesis
  proof (cases "rc > 0")
    case False
    then show ?thesis using read_tail_core[OF assms, of env t "[]" sz t'] by (simp add: a b)
  next
    case True
    note rr = read_random_core[OF assms, of env rc]
    show ?thesis
    proof (cases "read_random env s rc")
      case None
      with rr have "read_random env s' rc = None" by simp
      with None True show ?thesis by (simp add: a b)
    next
      case (Some p)
      obtain data s1 where p: "p = (data, s1)" by (cases p)
      from rr Some p obtain s1' where 1: "read_random env s' rc = Some (data, s1')"
         and 2: "rcf_core s1 = rcf_core s1'" by (cases "read_random env s' rc") auto
      from read_tail_core[OF 2, of env t data "sz - rc" t'] True Some p 1
      show ?thesis by (simp add: a b)
    qed
  qed
qed

lemma rcf_reads_core:
  assumes "rcf_core s = rcf_core s'" "map fst cs = map fst cs'"
  shows "map_option (map_sum id (map_prod id rcf_core)) (rcf_reads env s cs)
       = map_option (map_sum id (map_prod id rcf_core)) (rcf_reads env s' cs')"
  using assms
proof (induction cs arbitrary: s s' cs')
  case Nil
  then show ?case by simp
next
  case (Cons c cs)
  then obtain c' cs'' where cs': "cs' = c' # cs''" and fc: "fst c' = fst c"
     and m: "map fst cs = map fst cs''" by (cases cs') auto
  note r = rcf_read_core[OF Cons.prems(1), of env "fst c" "snd c" "snd c'"]
  show ?case
  proof (cases "rcf_read env s (fst c) (snd c)")
    case None
    with r have "rcf_read env s' (fst c) (snd c') = None" by simp
    with None show ?thesis by (simp add: cs' fc)
  next
    case (Some x)
    show ?thesis
    proof (cases x)
      case (Inl e)
      with r Some have "rcf_read env s' (fst c) (snd c') = Some (Inl e)"
        by (cases "rcf_read env s' (fst c) (snd c')") (auto simp: map_sum_def split: sum.splits)
      with Some Inl show ?thesis by (simp add: cs' fc)
    next
      case (Inr p)
      obtain d s1 where p: "p = (d, s1)" by (cases p)
      from r Some Inr p obtain s1' where 1: "rcf_read env s' (fst c) (snd c') = Some (Inr (d, s1'))"
        and 2: "rcf_core s1 = rcf_core s1'"
        by (cases "rcf_read env s' (fst c) (snd c')") (auto simp: map_sum_def split: sum.splits)
      note ih = Cons.IH[OF 2 m, of ]
      show ?thesis
      proof (cases "rcf_reads env s1 cs")
        case None
        with ih have "rcf_reads env s1' cs'' = None" by simp
        with None Some Inr p 1 show ?thesis by (simp add: cs' fc)
      next
        case (Some y)
        note Some' = Some
        show ?thesis
        proof (cases y)
          case (Inl e)
          with ih Some' have "rcf_reads env s1' cs'' = Some (Inl e)"
            by (cases "rcf_reads env s1' cs''") (auto simp: map_sum_def split: sum.splits)
          with Some' Inl \<open>rcf_read env s (fst c) (snd c) = Some x\<close> \<open>x = Inr p\<close> p 1 show ?thesis by (simp add: cs' fc)
        next
          case (Inr q)
          obtain ds s2 where q: "q = (ds, s2)" by (cases q)
          from ih Some' Inr q obtain s2' where 3: "rcf_reads env s1' cs'' = Some (Inr (ds, s2'))"
            and 4: "rcf_core s2 = rcf_core s2'"
            by (cases "rcf_reads env s1' cs''") (auto simp: map_sum_def split: sum.splits)
          from Some' Inr q 3 4 \<open>rcf_read env s (fst c) (snd c) = Some x\<close> \<open>x = Inr p\<close> p 1 show ?thesis by (simp add: cs' fc)
        qed
      qed
    qed
  qed
qed

section \<open>Results of calls and runs\<close>

lemma md5_okD: "md5_ok env \<Longrightarrow> length (md5 env x) = 16"
  by (simp add: md5_ok_def digest_size_def)

lemma read_all_fresh_16:
  assumes "md5_ok env" "16 \<le> sz" "n < 0 \<or> sz \<le> n"
  shows "returned (rcf_read env (RandomContentFile env sz seed t0) n t1) =
     Some (Inr (random_bytes env seed (nat (sz - 16))
                @ md5 env (random_bytes env seed (nat (sz - 16)))))"
  using assms(2) by (simp add: read_all_fresh[OF assms(3)] md5_okD[OF assms(1)])

lemma proj_returned:
  assumes "map_option (map_sum id (map_prod id f)) r = map_option (map_sum id (map_prod id f)) r'"
  shows "returned r = returned r'"
proof -
  have "map_option (map_sum id fst) (map_option (map_sum id (map_prod id f)) r)
      = map_option (map_sum id fst) (map_option (map_sum id (map_prod id f)) r')"
    by (simp only: assms)
  then show ?thesis
    by (simp add: returned_def option.map_comp sum.map_comp comp_def split_beta id_def)
qed

lemma toy_md5_ok: "md5_ok toy_env"
  by (simp add: md5_ok_def toy_env_def toy_md5_def digest_size_def)

lemma read_tail_fresh_state:
  assumes "rcf_digest s1 = None" "rcf_hash s1 = Some h"
    and "dc = min sz1 (rcf_size s1 - rcf_offset s1)" and "0 < dc"
  shows "read_tail env now r1 s1 sz1 =
           Inr (r1 @ take (nat dc) (md5 env h),
                rcf_mark_chunk env now
                  (s1\<lparr>rcf_digest := Some (md5 env h), rcf_hash := None,
                      rcf_offset := rcf_offset s1 + dc\<rparr>))"
  using assms(1,2,4)
  by (simp add: read_tail_def read_digest_def Let_def slice_to_nonneg assms(3)[symmetric])

lemma read_tail_sealed:
  assumes "rcf_digest s1 = Some d"
    and "dc = min sz1 (rcf_size s1 - rcf_offset s1)" and "0 < dc"
  shows "read_tail env now r1 s1 sz1 =
           Inr (r1 @ take (nat dc) d,
                rcf_mark_chunk env now (s1\<lparr>rcf_offset := rcf_offset s1 + dc\<rparr>))"
  using assms(1,3)
  by (simp add: read_tail_def read_digest_def Let_def slice_to_nonneg assms(2)[symmetric])

lemma returned_InrD:
  assumes "returned r = Some (Inr x)"
  shows "\<exists>s. r = Some (Inr (x, s))"
proof (cases r)
  case None
  with assms show ?thesis
    by (simp add: returned_def)
next
  case (Some y)
  show ?thesis
  proof (cases y)
    case (Inl e)
    with assms Some show ?thesis
      by (simp add: returned_def)
  next
    case (Inr p)
    with assms Some show ?thesis
      by (cases p) (simp add: returned_def)
  qed
qed

lemma chunked_16:
  "returned (rcf_reads env s [(8, t1), (8, t2)])
     = Some (Inr [take 8 (md5 env []), take 8 (md5 env [])])"
  if "rcf_core s = rcf_core (RandomContentFile env 16 seed t0)"
proof -
  have "returned (rcf_reads env (RandomContentFile env 16 seed t0) [(8, t1), (8, t2)])
     = Some (Inr [take 8 (md5 env []), take 8 (md5 env [])])"
    by (simp add: returned_def rcf_read_stages read_tail_def read_digest_def Let_def
      RandomContentFile_def digest_size_def rcf_mark_chunk_def slice_to_nonneg)
  moreover have "returned (rcf_reads env s [(8, t1), (8, t2)])
      = returned (rcf_reads env (RandomContentFile env 16 seed t0) [(8, t1), (8, t2)])"
    by (rule proj_returned[OF rcf_reads_core[OF that]]) simp
  ultimately show ?thesis
    by simp
qed

lemma split_trailer_20:
  "returned (rcf_reads env (RandomContentFile env 20 seed t0) [(12, t1), (8, t2)])
     = Some (Inr [random_bytes env seed 4 @ take 8 (md5 env (random_bytes env seed 4)),
                  take 8 (md5 env (random_bytes env seed 4))])"
proof -
  define s where "s = RandomContentFile env 20 seed t0"
  define P where "P = random_bytes env seed 4"
  define d where "d = md5 env P"
  have f: "rcf_size s = 20" "rcf_offset s = 0" "rcf_buffer s = []" "rcf_hash s = Some []"
     "rcf_digest s = None" "rcf_random s = seed_rng env seed"
    by (simp_all add: s_def RandomContentFile_def)
  have sz: "(12::int) = (if (12::int) < 0 then rcf_size s - rcf_offset s else 12)"
    by simp
  have rc: "(4::int) = min 12 (rcf_size s - rcf_offset s - digest_size)"
    by (simp add: f digest_size_def)
  have pos: "(0::int) < 4"
    by simp
  have le: "(4::int) \<le> rcf_size s - rcf_offset s - digest_size"
    by (simp add: f digest_size_def)
  have o: "0 \<le> rcf_offset s"
    by (simp add: f)
  from read_random_returns[OF pos le o, of env] obtain k where
    rr: "read_random env s 4 =
            Some (take 4 (gen_bytes (getrandbits64 env) k (seed_rng env seed)),
                 s\<lparr>rcf_random := snd (draw (getrandbits64 env) k (seed_rng env seed)),
                   rcf_offset := 4,
                   rcf_buffer := drop 4 (gen_bytes (getrandbits64 env) k (seed_rng env seed)),
                   rcf_hash := Some (take 4 (gen_bytes (getrandbits64 env) k (seed_rng env seed)))\<rparr>)"
    and l: "4 \<le> int (length (gen_bytes (getrandbits64 env) k (seed_rng env seed)))"
    by (auto simp: f)
  from l have "4 \<le> 8 * k"
    by (simp add: gen_bytes_length)
  from random_bytes_gen[OF this]
  have p: "take 4 (gen_bytes (getrandbits64 env) k (seed_rng env seed)) = P"
    by (simp only: P_def)
  define s1 where "s1 = s\<lparr>rcf_random := snd (draw (getrandbits64 env) k (seed_rng env seed)),
                   rcf_offset := 4,
                   rcf_buffer := drop 4 (gen_bytes (getrandbits64 env) k (seed_rng env seed)),
                   rcf_hash := Some P\<rparr>"
  have rr': "read_random env s 4 = Some (P, s1)"
    by (simp only: rr p s1_def)
  have f1: "rcf_digest s1 = None" "rcf_hash s1 = Some P" "rcf_size s1 = 20" "rcf_offset s1 = 4"
    by (simp_all add: s1_def f)
  have r1: "rcf_read env s 12 t1 = Some (read_tail env t1 P s1 8)"
    using rcf_read_random[OF sz rc pos rr', of t1] by simp
  define s2 where "s2 = rcf_mark_chunk env t1
                  (s1\<lparr>rcf_digest := Some (md5 env P), rcf_hash := None,
                      rcf_offset := rcf_offset s1 + 8\<rparr>)"
  have dc1: "(8::int) = min 8 (rcf_size s1 - rcf_offset s1)"
    by (simp add: f1)
  have t1: "read_tail env t1 P s1 8 = Inr (P @ take 8 d, s2)"
    using read_tail_fresh_state[OF f1(1,2) dc1, of env t1 P] by (simp add: s2_def d_def)
  have f2: "rcf_digest s2 = Some d" "rcf_size s2 = 20" "rcf_offset s2 = 12"
    by (simp_all add: s2_def rcf_mark_chunk_def f1 d_def)
  have sz2: "(8::int) = (if (8::int) < 0 then rcf_size s2 - rcf_offset s2 else 8)"
    by simp
  have rc2: "(- 8::int) = min 8 (rcf_size s2 - rcf_offset s2 - digest_size)"
    by (simp add: f2 digest_size_def)
  have r2: "rcf_read env s2 8 t2 = Some (read_tail env t2 [] s2 8)"
    by (rule rcf_read_skip[OF sz2 rc2]) simp
  have dc2: "(8::int) = min 8 (rcf_size s2 - rcf_offset s2)"
    by (simp add: f2)
  have t2: "read_tail env t2 [] s2 8
              = Inr (take 8 d, rcf_mark_chunk env t2 (s2\<lparr>rcf_offset := rcf_offset s2 + 8\<rparr>))"
    using read_tail_sealed[OF f2(1) dc2, of env t2 "[]"] by simp
  show ?thesis
    by (simp add: returned_def s_def[symmetric] r1 t1 r2 t2 P_def[symmetric] d_def[symmetric])
qed

section \<open>Payload carried across reads\<close>

text \<open>
  Reads that stay inside the payload return consecutive pieces of it, whatever their
  sizes, and a read that then returns the rest of the stream returns the rest of the
  payload followed by the first 16 bytes of the digest of the whole payload. So the
  stream has its layout whenever one call returns the whole trailer.
\<close>

lemma payload_state_init: "payload_state env sz seed 0 (RandomContentFile env sz seed t)"
  by (simp add: payload_state_def RandomContentFile_def random_bytes_0)
     (rule exI[of _ 0], simp add: gen_bytes_def pack_Qs_def)

lemma payload_state_mark:
  "payload_state env sz seed m s \<Longrightarrow> payload_state env sz seed m (rcf_mark_chunk env t s)"
  by (simp add: payload_state_def rcf_mark_chunk_def)

lemma read_tail_nothing:
  assumes "\<not> 0 < min sz1 (rcf_size s1 - rcf_offset s1)"
  shows "read_tail env now r1 s1 sz1 = Inr (r1, rcf_mark_chunk env now s1)"
proof -
  define dc where "dc = min sz1 (rcf_size s1 - rcf_offset s1)"
  have "\<not> 0 < dc"
    unfolding dc_def by (rule assms)
  then show ?thesis
    by (simp add: read_tail_def Let_def dc_def[symmetric])
qed

lemma payload_read_random:
  assumes st: "payload_state env sz seed m s"
    and pos: "0 < n" and le: "int m + n \<le> sz - 16"
  shows "\<exists>s1. read_random env s n
                = Some (drop m (random_bytes env seed (m + nat n)), s1)
              \<and> payload_state env sz seed (m + nat n) s1"
proof -
  let ?nxt = "getrandbits64 env"
  let ?g0 = "seed_rng env seed"
  from st obtain k where
    f: "rcf_size s = sz" "rcf_offset s = int m" "rcf_digest s = None"
       "rcf_hash s = Some (random_bytes env seed m)"
    and k: "m \<le> 8 * k"
       "rcf_buffer s = drop m (gen_bytes ?nxt k ?g0)"
       "rcf_random s = snd (draw ?nxt k ?g0)"
    by (auto simp: payload_state_def)
  from pos have n: "0 \<le> n"
    by simp
  have le': "n \<le> rcf_size s - rcf_offset s - digest_size"
    using le by (simp add: f digest_size_def)
  have o: "0 \<le> rcf_offset s"
    by (simp add: f)
  from read_random_returns[OF pos le' o, of env] obtain j where
    rr: "read_random env s n =
           Some (take (nat n) (rcf_buffer s @ gen_bytes ?nxt j (rcf_random s)),
             s\<lparr>rcf_random := snd (draw ?nxt j (rcf_random s)),
               rcf_offset := rcf_offset s + n,
               rcf_buffer := drop (nat n) (rcf_buffer s @ gen_bytes ?nxt j (rcf_random s)),
               rcf_hash := (case rcf_hash s of None \<Rightarrow> None
                  | Some h \<Rightarrow> Some (h @ take (nat n)
                                (rcf_buffer s @ gen_bytes ?nxt j (rcf_random s))))\<rparr>)"
    and l: "n \<le> int (length (rcf_buffer s @ gen_bytes ?nxt j (rcf_random s)))"
    by blast
  define G where "G = gen_bytes ?nxt (k + j) ?g0"
  have lG: "length G = 8 * (k + j)"
    by (simp add: G_def gen_bytes_length)
  have bG: "rcf_buffer s @ gen_bytes ?nxt j (rcf_random s) = drop m G"
    using k(1) by (simp add: k(2,3) G_def gen_bytes_add gen_bytes_length)
  from l have "n \<le> int (8 * (k + j) - m)"
    by (simp add: bG lG)
  with n k(1) have mn: "m + nat n \<le> 8 * (k + j)"
    by arith
  have rb: "random_bytes env seed (m + nat n) = take (m + nat n) G"
    unfolding G_def by (rule random_bytes_gen[OF mn, symmetric])
  have rm: "random_bytes env seed m = take m G"
    unfolding G_def using mn by (intro random_bytes_gen[symmetric]) simp
  define data where "data = drop m (random_bytes env seed (m + nat n))"
  have d: "take (nat n) (drop m G) = data"
    by (simp add: data_def rb drop_take)
  have h: "random_bytes env seed m @ data = random_bytes env seed (m + nat n)"
    by (simp add: rm d[symmetric] rb take_add)
  define s1 where "s1 = s\<lparr>rcf_random := snd (draw ?nxt (k + j) ?g0),
               rcf_offset := int (m + nat n),
               rcf_buffer := drop (m + nat n) G,
               rcf_hash := Some (random_bytes env seed (m + nat n))\<rparr>"
  have e1: "snd (draw ?nxt j (rcf_random s)) = snd (draw ?nxt (k + j) ?g0)"
    by (simp add: k(3) draw_add_snd)
  have e2: "rcf_offset s + n = int (m + nat n)"
    using n by (simp add: f)
  have e3: "drop (nat n) (drop m G) = drop (m + nat n) G"
    by (simp add: add.commute)
  have e4: "(case rcf_hash s of None \<Rightarrow> None | Some h \<Rightarrow> Some (h @ data))
              = Some (random_bytes env seed (m + nat n))"
    by (simp add: f h)
  have rr': "read_random env s n = Some (data, s1)"
    by (simp only: rr bG d e1 e2 e3 e4 s1_def)
  have st1: "payload_state env sz seed (m + nat n) s1"
    unfolding payload_state_def
    using mn by (simp add: s1_def f G_def) (rule exI[of _ "k + j"], simp)
  from rr' st1 show ?thesis
    by (auto simp: data_def)
qed

lemma payload_read:
  assumes st: "payload_state env sz seed m s"
    and n: "0 \<le> n" and le: "int m + n \<le> sz - 16"
  shows "\<exists>s'. rcf_read env s n t
                = Some (Inr (drop m (random_bytes env seed (m + nat n)), s'))
              \<and> payload_state env sz seed (m + nat n) s'"
proof -
  from st have f: "rcf_size s = sz" "rcf_offset s = int m"
    by (auto simp: payload_state_def)
  have szn: "n = (if n < 0 then rcf_size s - rcf_offset s else n)"
    using n by simp
  have rc: "n = min n (rcf_size s - rcf_offset s - digest_size)"
    using le by (simp add: f digest_size_def)
  show ?thesis
  proof (cases "0 < n")
    case False
    with n have n0: "n = 0"
      by simp
    have "rcf_read env s n t = Some (read_tail env t [] s n)"
      by (rule rcf_read_skip[OF szn rc False])
    moreover have "read_tail env t [] s n = Inr ([], rcf_mark_chunk env t s)"
      by (rule read_tail_nothing) (simp add: n0)
    ultimately have "rcf_read env s n t = Some (Inr ([], rcf_mark_chunk env t s))"
      by simp
    with payload_state_mark[OF st, of t] show ?thesis
      by (simp add: n0 random_bytes_length)
  next
    case True
    from payload_read_random[OF st True le] obtain s1 where
      rr: "read_random env s n = Some (drop m (random_bytes env seed (m + nat n)), s1)"
      and st1: "payload_state env sz seed (m + nat n) s1"
      by blast
    from st1 have f1: "rcf_size s1 = sz" "rcf_offset s1 = int (m + nat n)"
      by (auto simp: payload_state_def)
    have "rcf_read env s n t
            = Some (read_tail env t (drop m (random_bytes env seed (m + nat n))) s1 (n - n))"
      by (rule rcf_read_random[OF szn rc True rr])
    moreover have "read_tail env t (drop m (random_bytes env seed (m + nat n))) s1 (n - n)
            = Inr (drop m (random_bytes env seed (m + nat n)), rcf_mark_chunk env t s1)"
      by (rule read_tail_nothing) (use le n in \<open>simp add: f1\<close>)
    ultimately have "rcf_read env s n t
            = Some (Inr (drop m (random_bytes env seed (m + nat n)), rcf_mark_chunk env t s1))"
      by simp
    with payload_state_mark[OF st1, of t] show ?thesis
      by auto
  qed
qed

lemma random_bytes_take:
  assumes "a \<le> b"
  shows "take a (random_bytes env seed b) = random_bytes env seed a"
proof -
  have "a \<le> 8 * ((b + 7) div 8)"
    using assms by presburger
  from random_bytes_gen[OF this, of env seed]
  have "take a (gen_bytes (getrandbits64 env) ((b + 7) div 8) (seed_rng env seed))
          = random_bytes env seed a" .
  moreover have "take a (random_bytes env seed b)
          = take a (gen_bytes (getrandbits64 env) ((b + 7) div 8) (seed_rng env seed))"
    using assms by (simp add: random_bytes_def gen_bytes_def min_def)
  ultimately show ?thesis
    by simp
qed

lemma sum_fst_nonneg: "\<forall>c\<in>set cs. (0::int) \<le> fst c \<Longrightarrow> 0 \<le> sum_list (map fst cs)"
  by (induction cs) auto

lemma drop_take_split:
  assumes "m \<le> k"
  shows "drop m (take k xs) @ drop k xs = drop m xs"
proof (cases "k \<le> length xs")
  case True
  with assms have "m - length (take k xs) = 0"
    by simp
  with drop_append[of m "take k xs" "drop k xs"] show ?thesis
    by simp
next
  case False
  then show ?thesis
    by simp
qed

lemma payload_reads:
  assumes "payload_state env sz seed m s"
    and "\<forall>c\<in>set cs. 0 \<le> fst c"
    and "int m + sum_list (map fst cs) \<le> sz - 16"
  shows "\<exists>ds s'. rcf_reads env s cs = Some (Inr (ds, s'))
           \<and> concat ds = drop m (random_bytes env seed (m + nat (sum_list (map fst cs))))
           \<and> payload_state env sz seed (m + nat (sum_list (map fst cs))) s'"
  using assms
proof (induction cs arbitrary: m s)
  case Nil
  then show ?case
    by (simp add: random_bytes_length)
next
  case (Cons c cs)
  define n where "n = fst c"
  define r where "r = sum_list (map fst cs)"
  from Cons.prems(2) have n: "0 \<le> n" and nn: "\<forall>c\<in>set cs. 0 \<le> fst c"
    by (simp_all add: n_def)
  from sum_fst_nonneg[OF nn] have r: "0 \<le> r"
    by (simp add: r_def)
  from Cons.prems(3) have tot: "int m + n + r \<le> sz - 16"
    by (simp add: n_def r_def)
  with r have le: "int m + n \<le> sz - 16"
    by simp
  from payload_read[OF Cons.prems(1) n le, of "snd c"] obtain s1 where
    1: "rcf_read env s n (snd c) = Some (Inr (drop m (random_bytes env seed (m + nat n)), s1))"
    and st1: "payload_state env sz seed (m + nat n) s1"
    by blast
  have le1: "int (m + nat n) + sum_list (map fst cs) \<le> sz - 16"
    using tot n by (simp add: r_def)
  from Cons.IH[OF st1 nn le1] obtain ds s' where
    2: "rcf_reads env s1 cs = Some (Inr (ds, s'))"
    and 3: "concat ds = drop (m + nat n) (random_bytes env seed (m + nat n + nat r))"
    and 4: "payload_state env sz seed (m + nat n + nat r) s'"
    by (auto simp: r_def)
  have e: "m + nat n + nat r = m + nat (n + r)"
    using n r by (simp add: nat_add_distrib)
  define R where "R = random_bytes env seed (m + nat (n + r))"
  have tk: "random_bytes env seed (m + nat n) = take (m + nat n) R"
    unfolding R_def using r by (intro random_bytes_take[symmetric]) (simp add: nat_add_distrib n)
  have "drop m (take (m + nat n) R) @ drop (m + nat n) R = drop m R"
    by (rule drop_take_split) simp
  then have c: "drop m (random_bytes env seed (m + nat n)) @ concat ds = drop m R"
    by (simp add: 3 tk e R_def)
  have rd: "rcf_reads env s (c # cs)
          = Some (Inr (drop m (random_bytes env seed (m + nat n)) # ds, s'))"
    using 1 2 by (simp add: n_def)
  have c': "concat (drop m (random_bytes env seed (m + nat n)) # ds)
          = drop m (random_bytes env seed (m + nat (n + r)))"
    using c by (simp add: R_def)
  have st': "payload_state env sz seed (m + nat (n + r)) s'"
    using 4 by (simp only: e)
  have sm: "sum_list (map fst (c # cs)) = n + r"
    by (simp add: n_def r_def)
  from rd c' st' show ?case
    unfolding sm by blast
qed

lemma payload_then_rest:
  assumes st: "payload_state env sz seed m s"
    and le: "int m \<le> sz - 16" and n: "n < 0 \<or> sz - int m \<le> n"
  shows "returned (rcf_read env s n t) =
           Some (Inr (drop m (random_bytes env seed (nat (sz - 16)))
                      @ take 16 (md5 env (random_bytes env seed (nat (sz - 16))))))"
proof -
  define P where "P = random_bytes env seed (nat (sz - 16))"
  define szl where "szl = (if n < 0 then rcf_size s - rcf_offset s else n)"
  define rc where "rc = sz - 16 - int m"
  from st have f: "rcf_size s = sz" "rcf_offset s = int m" "rcf_digest s = None"
       "rcf_hash s = Some (random_bytes env seed m)"
    by (auto simp: payload_state_def)
  have ge: "sz - int m \<le> szl"
    using n by (auto simp: szl_def f)
  have rcm: "rc = min szl (rcf_size s - rcf_offset s - digest_size)"
    using ge by (simp add: rc_def f digest_size_def)
  have mr: "m + nat rc = nat (sz - 16)"
    using le by (simp add: rc_def)
  show ?thesis
  proof (cases "0 < rc")
    case False
    with le have m: "m = nat (sz - 16)" "sz - int m = 16"
      by (simp_all add: rc_def)
    have "rcf_read env s n t = Some (read_tail env t [] s szl)"
      by (rule rcf_read_skip[OF szl_def rcm False])
    moreover have "min szl (rcf_size s - rcf_offset s) = 16"
      using ge m by (simp add: f)
    ultimately show ?thesis
      using read_tail_fresh[OF f(3,4), of env t "[]" szl]
      by (simp add: returned_def m(1)[symmetric] random_bytes_length)
  next
    case True
    have le': "int m + rc \<le> sz - 16"
      by (simp add: rc_def)
    from payload_read_random[OF st True le'] obtain s1 where
      rr: "read_random env s rc = Some (drop m P, s1)"
      and st1: "payload_state env sz seed (nat (sz - 16)) s1"
      by (auto simp: mr P_def)
    from st1 le have f1: "rcf_size s1 = sz" "rcf_offset s1 = sz - 16" "rcf_digest s1 = None"
       "rcf_hash s1 = Some P"
      by (auto simp: payload_state_def P_def)
    have "rcf_read env s n t = Some (read_tail env t (drop m P) s1 (szl - rc))"
      by (rule rcf_read_random[OF szl_def rcm True rr])
    moreover have "min (szl - rc) (rcf_size s1 - rcf_offset s1) = 16"
      using ge by (simp add: f1 rc_def)
    ultimately show ?thesis
      using read_tail_fresh[OF f1(3,4), of env t "drop m P" "szl - rc"]
      by (simp add: returned_def P_def[symmetric])
  qed
qed

lemma rcf_reads_append:
  assumes "rcf_reads env s cs = Some (Inr (ds, s1))"
  shows "rcf_reads env s (cs @ cs') =
           (case rcf_reads env s1 cs' of
              None \<Rightarrow> None
            | Some (Inl e) \<Rightarrow> Some (Inl e)
            | Some (Inr (ds', s2)) \<Rightarrow> Some (Inr (ds @ ds', s2)))"
  using assms
proof (induction cs arbitrary: s ds)
  case Nil
  then show ?case
    by (auto split: option.splits sum.splits)
next
  case (Cons c cs)
  from Cons.prems obtain d s' ds0 where
    1: "rcf_read env s (fst c) (snd c) = Some (Inr (d, s'))"
    and 2: "rcf_reads env s' cs = Some (Inr (ds0, s1))" and 3: "ds = d # ds0"
    by (auto split: option.splits sum.splits)
  from Cons.IH[OF 2] 1 3 show ?case
    by (auto split: option.splits sum.splits)
qed

lemma trailer_in_one_read_layout:
  assumes "\<forall>c\<in>set cs. 0 \<le> fst c"
    and "sum_list (map fst cs) \<le> sz - 16"
    and "n < 0 \<or> sz - sum_list (map fst cs) \<le> n"
  shows "\<exists>ds. returned (rcf_reads env (RandomContentFile env sz seed t0) (cs @ [(n, t)]))
                 = Some (Inr ds)
              \<and> concat ds = random_bytes env seed (nat (sz - 16))
                             @ take 16 (md5 env (random_bytes env seed (nat (sz - 16))))"
proof -
  define P where "P = random_bytes env seed (nat (sz - 16))"
  define r where "r = sum_list (map fst cs)"
  from sum_fst_nonneg[OF assms(1)] have r: "0 \<le> r"
    by (simp add: r_def)
  have le0: "int 0 + sum_list (map fst cs) \<le> sz - 16"
    using assms(2) by simp
  from payload_reads[OF payload_state_init assms(1) le0, of env seed t0] obtain ds s1 where
    1: "rcf_reads env (RandomContentFile env sz seed t0) cs = Some (Inr (ds, s1))"
    and 2: "concat ds = random_bytes env seed (nat r)"
    and 3: "payload_state env sz seed (nat r) s1"
    by (auto simp: r_def)
  have le: "int (nat r) \<le> sz - 16"
    using assms(2) r by (simp add: r_def)
  have n: "n < 0 \<or> sz - int (nat r) \<le> n"
    using assms(3) r by (simp add: r_def)
  from returned_InrD[OF payload_then_rest[OF 3 le n, of t]] obtain s2 where
    4: "rcf_read env s1 n t = Some (Inr (drop (nat r) P @ take 16 (md5 env P), s2))"
    by (auto simp: P_def)
  have "rcf_reads env (RandomContentFile env sz seed t0) (cs @ [(n, t)])
          = Some (Inr (ds @ [drop (nat r) P @ take 16 (md5 env P)], s2))"
    by (simp add: rcf_reads_append[OF 1] 4)
  moreover have "nat r \<le> nat (sz - 16)"
    using assms(2) by (simp add: r_def)
  then have "random_bytes env seed (nat r) = take (nat r) P"
    unfolding P_def by (rule random_bytes_take[symmetric])
  ultimately show ?thesis
    by (simp add: returned_def 2 P_def[symmetric])
qed

section \<open>What holds for one read of the whole and for equal read sizes\<close>

text \<open>
  One \<^verbatim>\<open>read\<close> of the whole of a new object of size at least 16 returns the payload
  followed by its digest.
\<close>

lemma one_read_layout:
  assumes "md5_ok env" and "16 \<le> sz" and "n < 0 \<or> sz \<le> n"
  shows "returned (rcf_read env (RandomContentFile env sz seed t0) n t1) =
           Some (Inr (random_bytes env seed (nat (sz - 16))
                      @ md5 env (random_bytes env seed (nat (sz - 16)))))
         \<and> int (length (random_bytes env seed (nat (sz - 16)))) = sz - 16
         \<and> int (length (md5 env (random_bytes env seed (nat (sz - 16))))) = 16"
  using assms(2)
  by (simp add: read_all_fresh_16[OF assms] random_bytes_length md5_okD[OF assms(1)])

text \<open>
  After any reads, \<^verbatim>\<open>seek(0)\<close> succeeds and restores the generator, the buffer, the hash
  object, the digest and the offset of a new object; a second pass with the read sizes
  of the first returns the same bytes call by call.
\<close>

lemma seek_zero_rereads_same_sizes:
  assumes "map fst cs' = map fst cs"
  shows "\<exists>ds s1 s2. rcf_reads env (RandomContentFile env sz seed t0) cs = Some (Inr (ds, s1))
            \<and> rcf_seek env s1 0 t1 = Inr s2
            \<and> rcf_random s2 = seed_rng env seed \<and> rcf_buffer s2 = []
            \<and> rcf_hash s2 = Some [] \<and> rcf_digest s2 = None \<and> rcf_offset s2 = 0
            \<and> returned (rcf_reads env s2 cs') = Some (Inr ds)"
proof -
  from rcf_reads_returns[OF rcf_inv_init[of env sz seed t0], of env cs] obtain ds s1 where
    1: "rcf_reads env (RandomContentFile env sz seed t0) cs = Some (Inr (ds, s1))"
    and 2: "rcf_size s1 = sz" "rcf_seed s1 = seed"
    by (auto simp: RandomContentFile_def)
  define s2 where "s2 = s1\<lparr>rcf_random := seed_rng env (rcf_seed s1),
                  rcf_offset := 0,
                  rcf_buffer := [],
                  rcf_hash := Some [],
                  rcf_digest := None,
                  rcf_last_chunks := Some (rcf_chunks s1),
                  rcf_last_seek := t1,
                  rcf_chunks := []\<rparr>"
  have 3: "rcf_seek env s1 0 t1 = Inr s2" by (simp add: rcf_seek_def s2_def)
  have c: "rcf_core (RandomContentFile env sz seed t0) = rcf_core s2"
    by (simp add: rcf_core_def RandomContentFile_def s2_def 2)
  have a: "returned (rcf_reads env (RandomContentFile env sz seed t0) cs) = Some (Inr ds)"
    by (simp add: 1 returned_def)
  have b: "returned (rcf_reads env (RandomContentFile env sz seed t0) cs)
         = returned (rcf_reads env s2 cs')"
    by (rule proj_returned[OF rcf_reads_core[OF c assms[symmetric]]])
  from a b have 4: "returned (rcf_reads env s2 cs') = Some (Inr ds)" by simp
  have 5: "rcf_random s2 = seed_rng env seed \<and> rcf_buffer s2 = []
            \<and> rcf_hash s2 = Some [] \<and> rcf_digest s2 = None \<and> rcf_offset s2 = 0"
    by (simp add: s2_def 2)
  from 1 3 4 5 show ?thesis by blast
qed

section \<open>The claims\<close>

text \<open>
  Claim C1. For every size of at least 16 and every seed, one \<^verbatim>\<open>read\<close> of the whole
  of a new \<^verbatim>\<open>RandomContentFile(size, seed)\<close> (\<^verbatim>\<open>read(n)\<close> with \<open>n\<close> negative or at least
  the size) returns \<open>size\<close> bytes, and a new \<^verbatim>\<open>FileVerifier\<close> that is given these bytes,
  in one \<^verbatim>\<open>write\<close> or cut into any sequence of writes, answers \<^verbatim>\<open>valid()\<close> with true.
  The digest function is assumed to return 16 bytes.
\<close>

theorem full_read_verifies:
  assumes "md5_ok env" and "16 \<le> sz" and "n < 0 \<or> sz \<le> n"
  shows "\<exists>data. returned (rcf_read env (RandomContentFile env sz seed t0) n t1)
                  = Some (Inr data)
               \<and> int (length data) = sz
               \<and> fst (fv_valid env (fv_write env (FileVerifier t2) data t3))
               \<and> (\<forall>ws. concat (map fst ws) = data
                     \<longrightarrow> fst (fv_valid env (fv_writes env (FileVerifier t2) ws)))"
proof -
  define P where "P = random_bytes env seed (nat (sz - 16))"
  define data where "data = P @ md5 env P"
  have r: "returned (rcf_read env (RandomContentFile env sz seed t0) n t1) = Some (Inr data)"
    unfolding data_def P_def by (rule read_all_fresh_16[OF assms])
  have lP: "length P = nat (sz - 16)"
    by (simp add: P_def random_bytes_length)
  have lD: "length (md5 env P) = 16"
    by (rule md5_okD[OF assms(1)])
  have l: "int (length data) = sz"
    using assms(2) by (simp add: data_def lP lD)
  have v: "fst (fv_valid env s)" if inv: "fv_inv s data" for s :: "'b fv"
    by (simp add: fv_valid_seen[OF inv]) (simp add: data_def lD)
  have "fv_inv (fv_write env (FileVerifier t2) data t3) ([] @ data)"
    by (rule fv_inv_write[OF fv_inv_init])
  then have 1: "fst (fv_valid env (fv_write env (FileVerifier t2) data t3))"
    by (simp add: v)
  have 2: "fst (fv_valid env (fv_writes env (FileVerifier t2) ws))"
    if c: "concat (map fst ws) = data" for ws
  proof -
    have "fv_inv (fv_writes env (FileVerifier t2) ws) ([] @ concat (map fst ws))"
      by (rule fv_inv_writes[OF fv_inv_init])
    then show ?thesis
      by (simp add: c v)
  qed
  from r l 1 2 show ?thesis
    by blast
qed

theorem full_read_verifies_witness:
  "md5_ok toy_env \<and> (16::int) \<le> 20 \<and> ((- 1::int) < 0 \<or> (20::int) \<le> - 1)
   \<and> (\<exists>data. returned (rcf_read toy_env (RandomContentFile toy_env 20 42 0) (- 1) 1)
                  = Some (Inr data)
               \<and> int (length data) = 20
               \<and> fst (fv_valid toy_env (fv_write toy_env (FileVerifier 2) data 3)))"
proof -
  have h: "(- 1::int) < 0 \<or> (20::int) \<le> - 1" "(16::int) \<le> 20"
    by simp_all
  from full_read_verifies[OF toy_md5_ok h(2) h(1), of 42 0 1 2 3] toy_md5_ok h
  show ?thesis
    by blast
qed

text \<open>
  Claim C2, at an input where the code departs from it. The claim says that the bytes
  a \<^verbatim>\<open>RandomContentFile(size, seed)\<close> produces are \<open>size - 16\<close> payload bytes followed by the
  16-byte digest of those bytes. For size 20 read to completion by \<^verbatim>\<open>read(12)\<close> and
  \<^verbatim>\<open>read(8)\<close>, the 4 payload bytes are followed by the first 8 bytes of their digest
  twice: the second call returns \<^verbatim>\<open>self.digest[:8]\<close> again, not the last 8 bytes of the
  digest. One \<^verbatim>\<open>read(-1)\<close> of a new object returns the payload and the 16 digest bytes.
\<close>

theorem split_trailer_layout:
  "returned (rcf_reads env (RandomContentFile env 20 seed t0) [(12, t1), (8, t2)])
     = Some (Inr [random_bytes env seed 4 @ take 8 (md5 env (random_bytes env seed 4)),
                  take 8 (md5 env (random_bytes env seed 4))])
   \<and> returned (rcf_read env (RandomContentFile env 20 seed t0) (- 1) t3)
     = Some (Inr (random_bytes env seed 4 @ take 16 (md5 env (random_bytes env seed 4))))"
proof -
  have "returned (rcf_read env (RandomContentFile env 20 seed t0) (- 1) t3)
     = Some (Inr (random_bytes env seed 4 @ take 16 (md5 env (random_bytes env seed 4))))"
    using read_all_fresh[of "- 1" 20 env seed t0 t3] by simp
  with split_trailer_20[of env seed t0 t1 t2] show ?thesis
    by simp
qed

text \<open>
  Claim C3, at the input where the code departs from it. The claim says that reading
  in chunks returns, once joined, what one \<^verbatim>\<open>read(-1)\<close> returns. For size 16 and the
  two calls \<^verbatim>\<open>read(8)\<close>, \<^verbatim>\<open>read(8)\<close>, both calls return the first 8 bytes of the digest
  of the empty payload, since \<^verbatim>\<open>self.digest[:digest_count]\<close> slices from the start of
  the digest whatever the offset; one \<^verbatim>\<open>read(-1)\<close> returns all 16 bytes of that digest.
\<close>

theorem chunked_digest_repeats:
  "returned (rcf_reads env (RandomContentFile env 16 seed t0) [(8, t1), (8, t2)])
     = Some (Inr [take 8 (md5 env []), take 8 (md5 env [])])
   \<and> returned (rcf_read env (RandomContentFile env 16 seed t0) (- 1) t3)
     = Some (Inr (take 16 (md5 env [])))"
proof -
  have "returned (rcf_reads env (RandomContentFile env 16 seed t0) [(8, t1), (8, t2)])
     = Some (Inr [take 8 (md5 env []), take 8 (md5 env [])])"
    by (simp add: returned_def rcf_read_stages read_tail_def read_digest_def Let_def
      RandomContentFile_def digest_size_def rcf_mark_chunk_def slice_to_nonneg)
  moreover have "returned (rcf_read env (RandomContentFile env 16 seed t0) (- 1) t3)
     = Some (Inr (take 16 (md5 env [])))"
    by (simp add: read_all_fresh random_bytes_0)
  ultimately show ?thesis
    by simp
qed

text \<open>
  Claim C4. Two objects constructed with the same size and seed, at any two times, and
  read with the same sequence of \<^verbatim>\<open>read\<close> sizes, at any times, both return, and return
  the same bytes call by call.
\<close>

theorem same_parameters_same_bytes:
  assumes "map fst cs' = map fst cs"
  shows "\<exists>ds. returned (rcf_reads env (RandomContentFile env sz seed t0) cs) = Some (Inr ds)
            \<and> returned (rcf_reads env (RandomContentFile env sz seed t0') cs') = Some (Inr ds)"
proof -
  from rcf_reads_returns[OF rcf_inv_init[of env sz seed t0], of env cs] obtain ds s1 where
    1: "rcf_reads env (RandomContentFile env sz seed t0) cs = Some (Inr (ds, s1))" by blast
  have c: "rcf_core (RandomContentFile env sz seed t0) = rcf_core (RandomContentFile env sz seed t0')"
    by (simp add: rcf_core_def RandomContentFile_def)
  have a: "returned (rcf_reads env (RandomContentFile env sz seed t0) cs) = Some (Inr ds)"
    by (simp add: 1 returned_def)
  have b: "returned (rcf_reads env (RandomContentFile env sz seed t0) cs)
         = returned (rcf_reads env (RandomContentFile env sz seed t0') cs')"
    by (rule proj_returned[OF rcf_reads_core[OF c assms[symmetric]]])
  from a b show ?thesis by (intro exI[of _ ds]) simp
qed

theorem same_parameters_same_bytes_witness:
  "map fst [(- 1, 7), (3::int, 9::int)] = map fst [(- 1, 1), (3, 2)]
   \<and> (\<exists>ds. returned (rcf_reads toy_env (RandomContentFile toy_env 20 42 0) [(- 1, 1), (3, 2)])
               = Some (Inr ds)
            \<and> returned (rcf_reads toy_env (RandomContentFile toy_env 20 42 5) [(- 1, 7), (3, 9)])
               = Some (Inr ds))"
  using same_parameters_same_bytes[of "[(- 1, 7), (3, 9)]" "[(- 1, 1), (3, 2)]" toy_env 20 42 0 5]
  by simp

text \<open>
  Claim C5, at an input where the code departs from it. The claim says that after a
  full read, \<^verbatim>\<open>seek(0)\<close> and a second full read return the bytes of the first read. For
  size 16, the first pass \<^verbatim>\<open>read(-1)\<close> returns the 16 bytes of the digest of the empty
  payload; \<^verbatim>\<open>seek(0)\<close> succeeds; the second pass \<^verbatim>\<open>read(8)\<close>, \<^verbatim>\<open>read(8)\<close> returns the
  first 8 bytes of that digest twice.
\<close>

theorem reread_in_chunks_differs:
  "\<exists>s1 s2. rcf_reads env (RandomContentFile env 16 seed t0) [(- 1, t1)]
              = Some (Inr ([take 16 (md5 env [])], s1))
         \<and> rcf_seek env s1 0 t2 = Inr s2
         \<and> returned (rcf_reads env s2 [(8, t3), (8, t4)])
              = Some (Inr [take 8 (md5 env []), take 8 (md5 env [])])"
proof -
  from rcf_reads_returns[OF rcf_inv_init[of env 16 seed t0], of env "[(- 1, t1)]"]
  obtain ds s1 where
    1: "rcf_reads env (RandomContentFile env 16 seed t0) [(- 1, t1)] = Some (Inr (ds, s1))"
    and 2: "rcf_size s1 = 16" "rcf_seed s1 = seed"
    by (auto simp: RandomContentFile_def)
  have "returned (rcf_read env (RandomContentFile env 16 seed t0) (- 1) t1)
     = Some (Inr (take 16 (md5 env [])))"
    by (simp add: read_all_fresh random_bytes_0)
  from returned_InrD[OF this] obtain s' where
    "rcf_read env (RandomContentFile env 16 seed t0) (- 1) t1
       = Some (Inr (take 16 (md5 env []), s'))"
    by blast
  then have "rcf_reads env (RandomContentFile env 16 seed t0) [(- 1, t1)]
       = Some (Inr ([take 16 (md5 env [])], s'))"
    by simp
  with 1 have ds: "ds = [take 16 (md5 env [])]"
    by simp
  define s2 where "s2 = s1\<lparr>rcf_random := seed_rng env (rcf_seed s1),
                  rcf_offset := 0,
                  rcf_buffer := [],
                  rcf_hash := Some [],
                  rcf_digest := None,
                  rcf_last_chunks := Some (rcf_chunks s1),
                  rcf_last_seek := t2,
                  rcf_chunks := []\<rparr>"
  have 3: "rcf_seek env s1 0 t2 = Inr s2"
    by (simp add: rcf_seek_def s2_def)
  have c: "rcf_core s2 = rcf_core (RandomContentFile env 16 seed t0)"
    by (simp add: rcf_core_def RandomContentFile_def s2_def 2)
  from 1 ds 3 chunked_16[OF c, of t3 t4] show ?thesis
    by blast
qed

text \<open>
  Claim C6. After a \<^verbatim>\<open>write\<close> to a verifier in any state, the bytes fed to the digest
  followed by the trailing buffer are what they were before followed by the data
  written, and the trailing buffer has at most 16 bytes. Hence after each write of a
  run that starts with a new verifier (after the first \<open>k\<close> writes, for every \<open>k\<close>),
  the bytes fed to the digest followed by the trailing buffer are all the bytes written
  so far, and the trailing buffer has at most 16 bytes.
\<close>

theorem fv_write_invariant:
  "fv_hash (fv_write env s d t) @ fv_buf (fv_write env s d t) = fv_hash s @ fv_buf s @ d
   \<and> int (length (fv_buf (fv_write env s d t))) \<le> digest_size
   \<and> fv_hash (fv_writes env (FileVerifier t0) (take k ws))
       @ fv_buf (fv_writes env (FileVerifier t0) (take k ws)) = concat (map fst (take k ws))
   \<and> int (length (fv_buf (fv_writes env (FileVerifier t0) (take k ws)))) \<le> digest_size"
proof -
  have "fv_inv (fv_writes env (FileVerifier t0) (take k ws)) ([] @ concat (map fst (take k ws)))"
    by (rule fv_inv_writes[OF fv_inv_init])
  then show ?thesis
    using fv_write_step[of env s d t] by (simp add: fv_inv_def digest_size_def)
qed

text \<open>
  Claim C7. After any run of writes to a new verifier: when fewer than 16 bytes have
  been written, \<^verbatim>\<open>valid()\<close> is true iff the trailing buffer is a prefix of the digest of
  the bytes fed so far, and otherwise iff the trailing buffer equals that digest; the
  bytes fed are all bytes written except the last 16, and the trailing buffer is the
  last 16. If what has been written is a prefix of the stream that one \<^verbatim>\<open>read\<close> of the
  whole of a \<^verbatim>\<open>RandomContentFile\<close> of a size from 0 to 15 returns, \<^verbatim>\<open>valid()\<close> is true;
  and it is true for a new verifier.
\<close>

theorem fv_valid_meaning:
  "fst (fv_valid env (fv_writes env (FileVerifier t0) ws)) =
     (if length (concat (map fst ws)) < 16
      then prefix (fv_buf (fv_writes env (FileVerifier t0) ws))
                  (md5 env (fv_hash (fv_writes env (FileVerifier t0) ws)))
      else fv_buf (fv_writes env (FileVerifier t0) ws)
             = md5 env (fv_hash (fv_writes env (FileVerifier t0) ws)))
   \<and> fv_hash (fv_writes env (FileVerifier t0) ws)
        = take (length (concat (map fst ws)) - 16) (concat (map fst ws))
   \<and> fv_buf (fv_writes env (FileVerifier t0) ws)
        = drop (length (concat (map fst ws)) - 16) (concat (map fst ws))
   \<and> (0 \<le> sz \<and> sz < 16
        \<and> (n < 0 \<or> sz \<le> n)
        \<and> returned (rcf_read env (RandomContentFile env sz seed t1) n t2) = Some (Inr stream)
        \<and> prefix (concat (map fst ws)) stream
       \<longrightarrow> fst (fv_valid env (fv_writes env (FileVerifier t0) ws)))
   \<and> fst (fv_valid env (FileVerifier t0))"
proof -
  define s where "s = fv_writes env (FileVerifier t0) ws"
  define seen where "seen = concat (map fst ws)"
  have "fv_inv s ([] @ seen)"
    unfolding s_def seen_def by (rule fv_inv_writes[OF fv_inv_init])
  then have inv: "fv_inv s seen" by simp
  note sp = fv_inv_split[OF inv]
  have 1: "fst (fv_valid env s) =
     (if length seen < 16 then prefix (fv_buf s) (md5 env (fv_hash s))
      else fv_buf s = md5 env (fv_hash s))"
    using inv by (simp add: fv_valid_def fv_inv_def digest_size_def)
  have 2: "fst (fv_valid env s)"
    if a: "0 \<le> sz" "sz < 16"
      "returned (rcf_read env (RandomContentFile env sz seed t1) n t2) = Some (Inr stream)"
      "prefix seen stream" and n: "n < 0 \<or> sz \<le> n"
  proof -
    from a(1,2) have "random_bytes env seed (nat (sz - 16)) = []" by (simp add: random_bytes_0)
    with a(3) read_all_fresh[OF n, of env seed t1 t2]
    have "stream = take (nat (min sz 16)) (md5 env [])" by simp
    then have "prefix stream (md5 env [])" by (simp add: take_is_prefix)
    with a(4) have p: "prefix seen (md5 env [])" by (rule prefix_order.trans)
    from a(4) have "length seen \<le> length stream" by (rule prefix_length_le)
    also have "\<dots> \<le> nat (min sz 16)" using \<open>stream = _\<close> by simp
    finally have "length seen < 16" using a(2) by simp
    with p show ?thesis by (simp add: fv_valid_seen[OF inv])
  qed
  have 3: "fst (fv_valid env (FileVerifier t0))"
    by (simp add: fv_valid_def FileVerifier_def digest_size_def)
  from 1 2 3 sp show ?thesis unfolding s_def seen_def by blast
qed

theorem fv_valid_meaning_witness:
  "fst (fv_valid toy_env (fv_writes toy_env (FileVerifier 0) [([0, 1], 1), ([2], 2)]))"
proof -
  have s: "returned (rcf_read toy_env (RandomContentFile toy_env 5 42 0) (- 1) 1)
             = Some (Inr [0, 1, 2, 3, 4])"
    by (simp add: read_all_fresh random_bytes_0) (simp add: toy_env_def toy_md5_def upt_rec)
  have p: "prefix (concat (map fst [([0, 1], 1), ([2::byte], 2::int)])) [0, 1, 2, 3, 4]"
    by simp
  have "(0::int) \<le> 5 \<and> (5::int) < 16 \<and> ((- 1::int) < 0 \<or> (5::int) \<le> - 1)
        \<and> returned (rcf_read toy_env (RandomContentFile toy_env 5 42 0) (- 1) 1)
             = Some (Inr [0, 1, 2, 3, 4])
        \<and> prefix (concat (map fst [([0, 1], 1), ([2::byte], 2::int)])) [0, 1, 2, 3, 4]"
    using s p by simp
  with fv_valid_meaning[of toy_env 0 "[([0, 1], 1), ([2], 2)]" 5 "- 1" 42 0 1 "[0, 1, 2, 3, 4]"]
  show ?thesis by blast
qed

text \<open>
  Claim C8. \<^verbatim>\<open>seek(offset)\<close> of a \<^verbatim>\<open>RandomContentFile\<close> raises AssertionError for every
  offset other than 0, and \<^verbatim>\<open>seek(0)\<close> succeeds.
\<close>

theorem rcf_seek_only_zero:
  "(offset \<noteq> 0 \<longrightarrow> rcf_seek env s offset now = Inl AssertionError)
   \<and> (\<exists>s'. rcf_seek env s 0 now = Inr s')"
  by (simp add: rcf_seek_def)

theorem rcf_seek_only_zero_witness:
  "(5::int) \<noteq> 0 \<and> rcf_seek toy_env (RandomContentFile toy_env 20 42 0) 5 1 = Inl AssertionError
   \<and> (\<exists>s'. rcf_seek toy_env (RandomContentFile toy_env 20 42 0) 0 1 = Inr s')"
  using rcf_seek_only_zero[of 5 toy_env "RandomContentFile toy_env 20 42 0" 1] by simp

text \<open>
  Claim C9. \<^verbatim>\<open>seek(offset)\<close> of a \<^verbatim>\<open>PrecomputedContentFile\<close> with an offset other than 0
  raises what the file's \<^verbatim>\<open>seek\<close> raises, or else changes the file as that \<^verbatim>\<open>seek\<close>
  does and nothing else: \<^verbatim>\<open>chunks\<close>, \<^verbatim>\<open>last_chunks\<close> and \<^verbatim>\<open>last_seek\<close> stay as they
  are. \<^verbatim>\<open>seek(0)\<close> moves \<^verbatim>\<open>chunks\<close> into \<^verbatim>\<open>last_chunks\<close>, sets \<^verbatim>\<open>last_seek\<close> to the
  clock and empties \<^verbatim>\<open>chunks\<close>.
\<close>

theorem pcf_seek_bookkeeping:
  "(offset \<noteq> 0 \<longrightarrow>
      pcf_seek file_seek s offset now
        = map_sum id (\<lambda>f. s\<lparr>pcf_file := f\<rparr>) (file_seek (pcf_file s) offset))
   \<and> pcf_seek file_seek s 0 now
        = map_sum id (\<lambda>f. s\<lparr>pcf_file := f, pcf_last_chunks := Some (pcf_chunks s),
                             pcf_last_seek := now, pcf_chunks := []\<rparr>)
            (file_seek (pcf_file s) 0)"
  by (auto simp: pcf_seek_def Let_def split: sum.splits)

theorem pcf_seek_bookkeeping_witness:
  "(3::int) \<noteq> 0
   \<and> pcf_seek clamp_seek
        \<lparr>pcf_file = ([1, 2, 3, 4, 5], 5), pcf_last_chunks = None, pcf_chunks = [(5, 10)],
         pcf_last_seek = (0::int)\<rparr> 3 7
      = Inr \<lparr>pcf_file = ([1, 2, 3, 4, 5], 3), pcf_last_chunks = None, pcf_chunks = [(5, 10)],
             pcf_last_seek = 0\<rparr>
   \<and> pcf_seek clamp_seek
        \<lparr>pcf_file = ([1, 2, 3, 4, 5], 5), pcf_last_chunks = None, pcf_chunks = [(5, 10)],
         pcf_last_seek = (0::int)\<rparr> 0 7
      = Inr \<lparr>pcf_file = ([1, 2, 3, 4, 5], 0), pcf_last_chunks = Some [(5, 10)], pcf_chunks = [],
             pcf_last_seek = 7\<rparr>"
  using pcf_seek_bookkeeping[of 3 clamp_seek
        "\<lparr>pcf_file = ([1, 2, 3, 4, 5], 5), pcf_last_chunks = None, pcf_chunks = [(5, 10)],
         pcf_last_seek = (0::int)\<rparr>" 7]
  by (simp add: clamp_seek_def)

text \<open>
  Claim C10. \<^verbatim>\<open>valid()\<close> leaves the verifier as it is. In a run that mixes
  \<^verbatim>\<open>write\<close> and \<^verbatim>\<open>valid\<close> calls the final object is the one the writes alone
  produce, and the answers of the calls after any point are those of a run that starts
  from the object the earlier writes alone produce.
\<close>

theorem fv_valid_pure:
  "snd (fv_valid env s) = s
   \<and> snd (fv_calls env s cs) = fv_writes env s (writes_of cs)
   \<and> fst (fv_calls env s (cs @ cs'))
       = fst (fv_calls env s cs) @ fst (fv_calls env (fv_writes env s (writes_of cs)) cs')"
  by (simp add: fv_valid_snd fv_calls_state fv_calls_append)

end
